theory Spec2Isabelle
  imports Complex_Main
begin

section \<open>Python strings\<close>

text \<open>
  A Python \<open>str\<close> is modelled as a \<^typ>\<open>string\<close>; a character stands for the code point
  of the same number (below 256). The character classes are those of CPython for that
  range: \<open>str.isspace\<close> (which \<open>str.strip\<close>, \<open>int\<close> and the regular expression class
  \<open>\s\<close> of a \<open>str\<close> pattern use), the line boundaries of \<open>str.splitlines\<close>, and the decimal
  digits \<open>0\<close> to \<open>9\<close> (which \<open>\d\<close> and \<open>int\<close> accept).
\<close>

definition is_space :: "char \<Rightarrow> bool" where
  "is_space c = (c \<in> set [CHR 0x09, CHR 0x0A, CHR 0x0B, CHR 0x0C, CHR 0x0D,
                            CHR 0x1C, CHR 0x1D, CHR 0x1E, CHR 0x1F, CHR 0x20,
                            CHR 0x85, CHR 0xA0])"

definition is_linebreak :: "char \<Rightarrow> bool" where
  "is_linebreak c = (c \<in> set [CHR 0x0A, CHR 0x0B, CHR 0x0C, CHR 0x0D,
                                CHR 0x1C, CHR 0x1D, CHR 0x1E, CHR 0x85])"

definition is_digit :: "char \<Rightarrow> bool" where
  "is_digit c = (c \<in> set ''0123456789'')"

definition digit_val :: "char \<Rightarrow> nat" where
  "digit_val c = (of_char c :: nat) - 48"

definition digits_value :: "string \<Rightarrow> nat" where
  "digits_value ds = foldl (\<lambda>a c. 10 * a + digit_val c) 0 ds"

text \<open>\<open>s.strip()\<close>: whitespace removed at both ends.\<close>

definition py_strip :: "string \<Rightarrow> string" where
  "py_strip s = rev (dropWhile is_space (rev (dropWhile is_space s)))"

text \<open>\<open>s.startswith(p)\<close> and \<open>p in s\<close>.\<close>

fun starts_with :: "string \<Rightarrow> string \<Rightarrow> bool" where
  "starts_with [] s = True"
| "starts_with (p # ps) [] = False"
| "starts_with (p # ps) (c # cs) = (p = c \<and> starts_with ps cs)"

fun contains :: "string \<Rightarrow> string \<Rightarrow> bool" where
  "contains sub [] = (sub = [])"
| "contains sub (c # cs) = (starts_with sub (c # cs) \<or> contains sub cs)"

text \<open>\<open>s.lower()\<close>: the letters \<open>A\<close> to \<open>Z\<close>, and the upper-case letters of Latin-1.\<close>

definition lower_char :: "char \<Rightarrow> char" where
  "lower_char c =
     (let n = (of_char c :: nat)
      in if (65 \<le> n \<and> n \<le> 90) \<or> (192 \<le> n \<and> n \<le> 222 \<and> n \<noteq> 215)
         then char_of (n + 32) else c)"

definition py_lower :: "string \<Rightarrow> string" where
  "py_lower s = map lower_char s"

text \<open>
  \<open>s.splitlines()\<close>: the pieces between line boundaries, \<open>\r\n\<close> counting as one boundary,
  with no empty piece after a final boundary. \<open>cur\<close> is the current piece, reversed.
\<close>

fun splitlines_go :: "string \<Rightarrow> string \<Rightarrow> string list" where
  "splitlines_go cur [] = (if cur = [] then [] else [rev cur])"
| "splitlines_go cur (c # cs) =
     (if c = CHR 0x0D then
        (case cs of
           [] \<Rightarrow> [rev cur]
         | d # ds \<Rightarrow> if d = CHR 0x0A then rev cur # splitlines_go [] ds
                    else rev cur # splitlines_go [] cs)
      else if is_linebreak c then rev cur # splitlines_go [] cs
      else splitlines_go (c # cur) cs)"

definition splitlines :: "string \<Rightarrow> string list" where
  "splitlines s = splitlines_go [] s"

text \<open>
  \<open>s.split(sep)\<close> for a non-empty separator: the pieces between the occurrences of
  \<open>sep\<close>, found from left to right without overlap.
\<close>

function split_go :: "string \<Rightarrow> string \<Rightarrow> string \<Rightarrow> string list" where
  "split_go sep cur [] = [rev cur]"
| "split_go sep cur (c # cs) =
     (if sep \<noteq> [] \<and> starts_with sep (c # cs)
      then rev cur # split_go sep [] (drop (length sep) (c # cs))
      else split_go sep (c # cur) cs)"
  by pat_completeness auto
termination
  by (relation "measure (\<lambda>(sep, cur, s). length s)") (auto simp: neq_Nil_conv)

definition py_split :: "string \<Rightarrow> string \<Rightarrow> string list" where
  "py_split sep s = split_go sep [] s"

text \<open>\<open>'\n'.join(lines)\<close>.\<close>

fun join_lines :: "string list \<Rightarrow> string" where
  "join_lines [] = []"
| "join_lines [l] = l"
| "join_lines (l # m # ls) = l @ CHR 0x0A # join_lines (m # ls)"

text \<open>
  \<open>int(s)\<close> on a string: surrounding whitespace, an optional sign, then decimal digits
  in which single underscores may separate digits. Anything else raises \<open>ValueError\<close>,
  here \<open>None\<close>.
\<close>

fun digits_ok :: "string \<Rightarrow> bool" where
  "digits_ok [] = False"
| "digits_ok [c] = is_digit c"
| "digits_ok (c # d # cs) =
     (is_digit c \<and> (if d = CHR ''_'' then digits_ok cs else digits_ok (d # cs)))"

definition py_int_unsigned :: "string \<Rightarrow> int option" where
  "py_int_unsigned body =
     (if digits_ok body
      then Some (int (digits_value (filter (\<lambda>c. c \<noteq> CHR ''_'') body)))
      else None)"

definition py_int :: "string \<Rightarrow> int option" where
  "py_int s =
     (case py_strip s of
        [] \<Rightarrow> None
      | c # cs \<Rightarrow>
          if c = CHR ''-'' then map_option uminus (py_int_unsigned cs)
          else if c = CHR ''+'' then py_int_unsigned cs
          else py_int_unsigned (c # cs))"

text \<open>\<open>str(n)\<close> for an integer, as an f-string renders it.\<close>

definition digit_char :: "nat \<Rightarrow> char" where
  "digit_char d = ''0123456789'' ! d"

function str_nat :: "nat \<Rightarrow> string" where
  "str_nat n = (if n < 10 then [digit_char n] else str_nat (n div 10) @ [digit_char (n mod 10)])"
  by pat_completeness auto
termination
  by (relation "measure id") auto

declare str_nat.simps [simp del]

definition str_int :: "int \<Rightarrow> string" where
  "str_int i = (if i < 0 then CHR ''-'' # str_nat (nat (- i)) else str_nat (nat i))"

text \<open>
  Python indexing \<open>xs[i]\<close>: a negative index counts from the end, and an index out of
  range raises \<open>IndexError\<close>.
\<close>

datatype py_error = IndexError

definition py_index :: "'a list \<Rightarrow> int \<Rightarrow> py_error + 'a" where
  "py_index xs i =
     (if 0 \<le> i \<and> i < int (length xs) then Inr (xs ! nat i)
      else if i < 0 \<and> - int (length xs) \<le> i then Inr (xs ! nat (int (length xs) + i))
      else Inl IndexError)"

section \<open>Response parser\<close>

text \<open>
  \<open>get_position_from_response\<close> of the snapshot collector:
  \<open>re.search(r'Position:\s*(\d+)', resp)\<close> finds the leftmost place where the pattern
  matches, and the function returns \<open>int\<close> of the digits matched there.
  \<open>match_position_at\<close> is the match attempted at the start of its argument.
\<close>

definition match_position_at :: "string \<Rightarrow> int option" where
  "match_position_at s =
     (if starts_with ''Position:'' s then
        (let ds = takeWhile is_digit (dropWhile is_space (drop 9 s))
         in if ds = [] then None else Some (int (digits_value ds)))
      else None)"

fun get_position_from_response :: "string \<Rightarrow> int option" where
  "get_position_from_response [] = match_position_at []"
| "get_position_from_response (c # cs) =
     (case match_position_at (c # cs) of
        Some p \<Rightarrow> Some p
      | None \<Rightarrow> get_position_from_response cs)"

section \<open>Command channel\<close>

text \<open>
  The serial port, once opened. \<open>rx ser k\<close> is what the \<open>k\<close>-th drain of the input buffer
  yields: the decoded result of each \<open>readline\<close> made while \<open>in_waiting\<close> is non-zero, in order
  (a \<open>readline\<close> that raises ends the drain). \<open>drained\<close> counts the drains made so far,
  \<open>tx\<close> is every payload written, oldest first, and \<open>is_open\<close> is cleared by \<open>close\<close>.
\<close>

record serial =
  rx :: "nat \<Rightarrow> string list"
  drained :: nat
  tx :: "string list"
  is_open :: bool

text \<open>The lines kept from a drain: each stripped, the empty ones dropped.\<close>

definition kept_lines :: "string list \<Rightarrow> string list" where
  "kept_lines raw = filter (\<lambda>line. line \<noteq> []) (map py_strip raw)"

text \<open>
  \<open>arduino_send(cmd, ser)\<close>: writes the stripped command and a newline, waits, then drains
  the buffer and returns the kept lines joined by newlines.
\<close>

definition arduino_send :: "string \<Rightarrow> serial \<Rightarrow> string \<times> serial" where
  "arduino_send cmd ser =
     (join_lines (kept_lines (rx ser (drained ser))),
      ser\<lparr>tx := tx ser @ [py_strip cmd @ [CHR 0x0A]], drained := Suc (drained ser)\<rparr>)"

section \<open>Sweep scanner\<close>

text \<open>
  The homing wait of \<open>autofocus_sweep\<close>: \<open>for _ in range(60)\<close>, one status query per cycle,
  left at the first reply that holds a homing marker.
\<close>

definition homing_marker :: "string \<Rightarrow> bool" where
  "homing_marker resp =
     (contains ''Homing complete.'' resp \<or> contains ''homed'' (py_lower resp))"

fun wait_homing :: "nat \<Rightarrow> serial \<Rightarrow> bool \<times> serial" where
  "wait_homing 0 ser = (False, ser)"
| "wait_homing (Suc n) ser =
     (let (resp, ser') = arduino_send ''Q'' ser
      in if homing_marker resp then (True, ser') else wait_homing n ser')"

text \<open>
  The travel limit: every line of the reply that holds \<open>Max limit:\<close> and whose piece after
  it (\<open>line.split('Max limit:')[1].strip()\<close>) converts with \<open>int\<close> assigns \<open>max_steps\<close>;
  a failed conversion is caught and passed over.
\<close>

definition limit_of_line :: "string \<Rightarrow> int option" where
  "limit_of_line line =
     (if contains ''Max limit:'' line then
        (case py_index (py_split ''Max limit:'' line) 1 of
           Inl e \<Rightarrow> None
         | Inr piece \<Rightarrow> py_int (py_strip piece))
      else None)"

fun max_limit_scan :: "string list \<Rightarrow> int \<Rightarrow> int" where
  "max_limit_scan [] max_steps = max_steps"
| "max_limit_scan (line # rest) max_steps =
     max_limit_scan rest (case limit_of_line line of None \<Rightarrow> max_steps | Some v \<Rightarrow> v)"

definition read_max_limit :: "string \<Rightarrow> int" where
  "read_max_limit resp = max_limit_scan (splitlines resp) 9000"

text \<open>
  Everything \<open>autofocus_sweep\<close> does before it opens the camera: objective, sweep speed,
  home, the homing wait, and the status query for the travel limit.
\<close>

definition sweep_setup :: "int \<Rightarrow> serial \<Rightarrow> int \<times> serial" where
  "sweep_setup objective ser =
     (let sweep_speed = 12;
          ser1 = snd (arduino_send (CHR ''O'' # str_int objective) ser);
          ser2 = snd (arduino_send (CHR ''V'' # str_int sweep_speed) ser1);
          ser3 = snd (arduino_send ''Z'' ser2);
          (homed, ser4) = wait_homing 60 ser3;
          (resp, ser5) = arduino_send ''Q'' ser4
      in (read_max_limit resp, ser5))"

text \<open>
  The capture loop. \<open>cam_read k\<close> is the success flag of the \<open>k\<close>-th \<open>cap.read()\<close>. The loop
  has no bound of its own when the step size is not positive, so it is a partial function:
  \<open>None\<close> is a loop that never ends.
\<close>

partial_function (option) capture_loop ::
  "(nat \<Rightarrow> bool) \<Rightarrow> int \<Rightarrow> int \<Rightarrow> nat \<Rightarrow> int \<Rightarrow> int list \<Rightarrow> serial
     \<Rightarrow> (int list \<times> serial) option" where
  "capture_loop cam_read step max_steps k pos frame_positions ser =
     (if pos \<le> max_steps then
        if \<not> cam_read k then Some (frame_positions, ser)
        else capture_loop cam_read step max_steps (Suc k) (pos + step)
               (frame_positions @ [pos])
               (if pos + step \<le> max_steps
                then snd (arduino_send (CHR ''G'' # str_int step) ser) else ser)
      else Some (frame_positions, ser))"

declare capture_loop.simps [code]

section \<open>Focus scorer\<close>

text \<open>
  The scoring loop reads the video back frame by frame; a frame is represented by its
  Tenengrad score. \<open>best_idx\<close> and \<open>best_score\<close> start at \<open>-1\<close> and \<open>-1.0\<close>.
\<close>

fun score_scan :: "real list \<Rightarrow> int \<Rightarrow> int \<Rightarrow> real \<Rightarrow> int \<times> real" where
  "score_scan [] idx best_idx best_score = (best_idx, best_score)"
| "score_scan (score # rest) idx best_idx best_score =
     (if score > best_score then score_scan rest (idx + 1) idx score
      else score_scan rest (idx + 1) best_idx best_score)"

definition score_frames :: "real list \<Rightarrow> int \<times> real" where
  "score_frames video = score_scan video 0 (- 1) (- 1)"

section \<open>Best-focus corrector\<close>

text \<open>
  \<open>target_pos = frame_positions[best_idx] if best_idx < len(frame_positions) else 0\<close>, then
  \<open>delta = target_pos - frame_positions[-1]\<close>.
\<close>

definition target_pos :: "int list \<Rightarrow> int \<Rightarrow> py_error + int" where
  "target_pos frame_positions best_idx =
     (if best_idx < int (length frame_positions) then py_index frame_positions best_idx
      else Inr 0)"

definition corrective_delta :: "int list \<Rightarrow> int \<Rightarrow> py_error + int" where
  "corrective_delta frame_positions best_idx =
     (case target_pos frame_positions best_idx of
        Inl e \<Rightarrow> Inl e
      | Inr t \<Rightarrow>
          (case py_index frame_positions (- 1) of
             Inl e \<Rightarrow> Inl e
           | Inr l \<Rightarrow> Inr (t - l)))"

text \<open>The dictionary returned: the error form, or the result form (\<open>'?'\<close> is \<open>None\<close>).\<close>

record sweep_result =
  res_frames :: nat
  res_best_idx :: int
  res_best_score :: real
  res_best_step :: "int option"
  res_objective :: int
  res_step_size :: int

datatype sweep_outcome = ErrorDict string | ResultDict sweep_result

definition best_step :: "int list \<Rightarrow> int \<Rightarrow> py_error + int option" where
  "best_step frame_positions best_idx =
     (if best_idx < int (length frame_positions)
      then map_sum id Some (py_index frame_positions best_idx)
      else Inr None)"

text \<open>
  \<open>autofocus_sweep(objective, step_size)\<close>, given the opened port, whether the camera
  opened, the camera's reads and the scores of the frames the video yields when read
  back. The result is \<open>None\<close> when the capture loop never ends, \<open>Inl\<close> of the exception
  that leaves the function, or \<open>Inr\<close> of the dictionary returned; the port comes with it.
\<close>

definition autofocus_sweep ::
  "int \<Rightarrow> int \<Rightarrow> serial \<Rightarrow> bool \<Rightarrow> (nat \<Rightarrow> bool) \<Rightarrow> real list
     \<Rightarrow> ((py_error + sweep_outcome) \<times> serial) option" where
  "autofocus_sweep objective step ser cam_opened cam_read video =
     (let (max_steps, ser5) = sweep_setup objective ser
      in if \<not> cam_opened
         then Some (Inr (ErrorDict ''Could not open camera''), ser5\<lparr>is_open := False\<rparr>)
         else
           (case capture_loop cam_read step max_steps 0 0 [] ser5 of
              None \<Rightarrow> None
            | Some (frame_positions, ser6) \<Rightarrow>
                (let (best_idx, best_score) = score_frames video
                 in case corrective_delta frame_positions best_idx of
                      Inl e \<Rightarrow> Some (Inl e, ser6)
                    | Inr delta \<Rightarrow>
                        (let ser7 = snd (arduino_send (CHR ''G'' # str_int delta) ser6);
                             ser8 = ser7\<lparr>is_open := False\<rparr>
                         in case best_step frame_positions best_idx of
                              Inl e \<Rightarrow> Some (Inl e, ser8)
                            | Inr bs \<Rightarrow>
                                Some (Inr (ResultDict
                                   \<lparr>res_frames = length frame_positions,
                                    res_best_idx = best_idx,
                                    res_best_score = best_score,
                                    res_best_step = bs,
                                    res_objective = objective,
                                    res_step_size = step\<rparr>), ser8)))))"

section \<open>Position confirmation\<close>

text \<open>
  \<open>confirm_move(ser, timeout, prev_position)\<close> of the snapshot collector. Each cycle writes
  \<open>Q\<close>, sleeps and drains the buffer into \<open>resp\<close>, every kept line followed by a newline.
  \<open>clock k\<close> is what the \<open>k\<close>-th call of \<open>time.time()\<close> returns: call \<open>0\<close> sets \<open>start\<close>,
  call \<open>Suc k\<close> is the loop test before cycle \<open>k\<close>. What the function prints is
  returned as a list of events. The loop is a partial function: \<open>None\<close> is a loop that never
  ends.
\<close>

datatype event =
  ArduinoResponse string
| PositionChanged int int
| MoveNotConfirmed

definition poll_status :: "serial \<Rightarrow> string \<times> serial" where
  "poll_status ser =
     (concat (map (\<lambda>line. line @ [CHR 0x0A]) (kept_lines (rx ser (drained ser)))),
      ser\<lparr>tx := tx ser @ [[CHR ''Q'', CHR 0x0A]], drained := Suc (drained ser)\<rparr>)"

partial_function (option) confirm_loop ::
  "(nat \<Rightarrow> real) \<Rightarrow> real \<Rightarrow> nat \<Rightarrow> serial \<Rightarrow> int option \<Rightarrow> event list
     \<Rightarrow> (int option \<times> serial \<times> event list) option" where
  "confirm_loop clock timeout k ser last_position out =
     (if clock (Suc k) - clock 0 < timeout then
        (case poll_status ser of
           (resp, ser') \<Rightarrow>
             if resp \<noteq> [] then
               (case (last_position, get_position_from_response resp) of
                  (Some l, Some pos) \<Rightarrow>
                    if pos \<noteq> l
                    then Some (Some pos, ser',
                               out @ [ArduinoResponse resp, PositionChanged l pos])
                    else confirm_loop clock timeout (Suc k) ser' last_position
                           (out @ [ArduinoResponse resp])
                | (None, Some pos) \<Rightarrow>
                    confirm_loop clock timeout (Suc k) ser' (Some pos)
                      (out @ [ArduinoResponse resp])
                | (_, None) \<Rightarrow>
                    confirm_loop clock timeout (Suc k) ser' last_position
                      (out @ [ArduinoResponse resp]))
             else confirm_loop clock timeout (Suc k) ser' last_position out)
      else Some (last_position, ser, out @ [MoveNotConfirmed]))"

declare confirm_loop.simps [code]

definition confirm_move ::
  "(nat \<Rightarrow> real) \<Rightarrow> serial \<Rightarrow> real \<Rightarrow> int option
     \<Rightarrow> (int option \<times> serial \<times> event list) option" where
  "confirm_move clock ser timeout prev_position =
     confirm_loop clock timeout 0 ser prev_position []"

section \<open>Example inputs\<close>

text \<open>
  A port whose controller reports homing on the second status query and then a travel
  limit of 700 steps.
\<close>

definition demo_port :: serial where
  "demo_port = \<lparr>rx = (\<lambda>k. if k = 4 then [''Homing complete.'']
                          else if k = 5 then [''Position: 0'', ''Max limit: 700''] else []),
                drained = 0, tx = [], is_open = True\<rparr>"

text \<open>
  A port whose controller reports a travel limit of 4000 steps, and a video of 41 frames
  whose sharpest frame is the one with index 34.
\<close>

definition long_port :: serial where
  "long_port = \<lparr>rx = (\<lambda>k. if k = 3 then [''Homing complete.'']
                          else if k = 4 then [''Position: 0'', ''Max limit: 4000''] else []),
                drained = 0, tx = [], is_open = True\<rparr>"

definition long_video :: "real list" where
  "long_video = replicate 34 1 @ [5] @ replicate 6 2"

text \<open>A port whose controller never answers.\<close>

definition silent_port :: serial where
  "silent_port = \<lparr>rx = (\<lambda>k. []), drained = 0, tx = [], is_open = True\<rparr>"

text \<open>A port whose controller answers the third status query with \<open>STAGE HOMED\<close>.\<close>

definition shouting_port :: serial where
  "shouting_port = \<lparr>rx = (\<lambda>k. if k = 5 then [''STAGE HOMED''] else [''Position: 7'']),
                    drained = 0, tx = [], is_open = True\<rparr>"

text \<open>
  A controller that reports position 100 to the first two status queries and 150 from
  then on, one that reports 100 for ever, and a clock that advances by half a second
  from one reading to the next.
\<close>

definition moving_port :: serial where
  "moving_port = \<lparr>rx = (\<lambda>k. if k < 2 then [''Position: 100''] else [''Position: 150'']),
                  drained = 0, tx = [], is_open = True\<rparr>"

definition stuck_port :: serial where
  "stuck_port = \<lparr>rx = (\<lambda>k. [''Position: 100'']), drained = 0, tx = [], is_open = True\<rparr>"

definition half_second_clock :: "nat \<Rightarrow> real" where
  "half_second_clock k = real k / 2"

section \<open>Selecting the sharpest frame\<close>

lemma score_scan_unchanged:
  "\<forall>x\<in>set xs. x \<le> bs \<Longrightarrow> score_scan xs idx bi bs = (bi, bs)"
  by (induction xs arbitrary: idx) auto

lemma score_scan_select:
  "\<exists>x\<in>set xs. bs < x \<Longrightarrow>
     \<exists>i<length xs. score_scan xs idx bi bs = (idx + int i, xs ! i) \<and> bs < xs ! i
        \<and> (\<forall>j<length xs. xs ! j \<le> xs ! i) \<and> (\<forall>j<i. xs ! j < xs ! i)"
proof (induction xs arbitrary: idx bi bs)
  case Nil
  then show ?case by simp
next
  case (Cons x xs)
  show ?case
  proof (cases "bs < x")
    case True
    show ?thesis
    proof (cases "\<exists>y\<in>set xs. x < y")
      case later: True
      from Cons.IH [OF later, of "idx + 1" idx]
      obtain i where i: "i < length xs"
        "score_scan xs (idx + 1) idx x = (idx + 1 + int i, xs ! i)" "x < xs ! i"
        "\<forall>j<length xs. xs ! j \<le> xs ! i" "\<forall>j<i. xs ! j < xs ! i"
        by blast
      have "Suc i < length (x # xs)" using i(1) by simp
      moreover have "score_scan (x # xs) idx bi bs = (idx + int (Suc i), (x # xs) ! Suc i)"
        using True i(2) by simp
      moreover have "bs < (x # xs) ! Suc i" using True i(3) by simp
      moreover have "\<forall>j<length (x # xs). (x # xs) ! j \<le> (x # xs) ! Suc i"
        using i(3,4) by (auto simp: nth_Cons split: nat.splits)
      moreover have "\<forall>j<Suc i. (x # xs) ! j < (x # xs) ! Suc i"
        using i(3,5) by (auto simp: nth_Cons split: nat.splits)
      ultimately show ?thesis by blast
    next
      case False
      then have le: "\<forall>y\<in>set xs. y \<le> x" by auto
      have "score_scan (x # xs) idx bi bs = (idx + int 0, (x # xs) ! 0)"
        using True score_scan_unchanged [OF le] by simp
      moreover have "\<forall>j<length (x # xs). (x # xs) ! j \<le> (x # xs) ! 0"
        using le by (auto simp: nth_Cons split: nat.splits)
      ultimately show ?thesis using True by (intro exI [of _ 0]) simp
    qed
  next
    case False
    with Cons.prems have later: "\<exists>y\<in>set xs. bs < y" by auto
    from Cons.IH [OF later, of "idx + 1" bi]
    obtain i where i: "i < length xs"
      "score_scan xs (idx + 1) bi bs = (idx + 1 + int i, xs ! i)" "bs < xs ! i"
      "\<forall>j<length xs. xs ! j \<le> xs ! i" "\<forall>j<i. xs ! j < xs ! i"
      by blast
    have "Suc i < length (x # xs)" using i(1) by simp
    moreover have "score_scan (x # xs) idx bi bs = (idx + int (Suc i), (x # xs) ! Suc i)"
      using False i(2) by simp
    moreover have "bs < (x # xs) ! Suc i" using i(3) by simp
    moreover have "\<forall>j<length (x # xs). (x # xs) ! j \<le> (x # xs) ! Suc i"
      using False i(3,4) by (auto simp: nth_Cons split: nat.splits)
    moreover have "\<forall>j<Suc i. (x # xs) ! j < (x # xs) ! Suc i"
      using False i(3,5) by (auto simp: nth_Cons split: nat.splits)
    ultimately show ?thesis by blast
  qed
qed

lemma autofocus_sweep_best_idx:
  "autofocus_sweep objective step ser cam_opened cam_read video = Some (Inr (ResultDict r), ser')
     \<Longrightarrow> res_best_idx r = fst (score_frames video) \<and> res_best_score r = snd (score_frames video)"
  by (auto simp: autofocus_sweep_def Let_def split: prod.splits if_splits option.splits sum.splits)

text \<open>
  C1: when the scoring loop reads at least one frame (every score being a Tenengrad
  value, so not negative), the index it selects is that of a maximal score, and every
  earlier score is strictly smaller: the first occurrence of the maximum. A result
  returned by \<open>autofocus_sweep\<close> reports that index. Scores \<open>[1, 3, 3, 2]\<close> select index 1.
\<close>

theorem score_frames_argmax_first:
  assumes "video \<noteq> []" and "\<forall>s\<in>set video. 0 \<le> s"
  shows "\<exists>i<length video.
           score_frames video = (int i, video ! i)
         \<and> (\<forall>j<length video. video ! j \<le> video ! i)
         \<and> (\<forall>j<i. video ! j < video ! i)
         \<and> (\<forall>r ser'. autofocus_sweep objective step ser cam_opened cam_read video
                         = Some (Inr (ResultDict r), ser')
                \<longrightarrow> res_best_idx r = int i)"
proof -
  from assms have "\<exists>x\<in>set video. (- 1 :: real) < x"
    by (cases video) auto
  from score_scan_select [OF this, of 0 "- 1"]
  obtain i where i: "i < length video" "score_frames video = (int i, video ! i)"
    "\<forall>j<length video. video ! j \<le> video ! i" "\<forall>j<i. video ! j < video ! i"
    by (auto simp: score_frames_def)
  have "res_best_idx r = int i"
    if "autofocus_sweep objective step ser cam_opened cam_read video = Some (Inr (ResultDict r), ser')"
    for r ser'
    using autofocus_sweep_best_idx [OF that] i(2) by simp
  with i show ?thesis by blast
qed

theorem score_frames_argmax_first_witness:
  "[1, 3, 3, 2 :: real] \<noteq> [] \<and> list_all (\<lambda>s. 0 \<le> s) [1, 3, 3, 2 :: real]
   \<and> score_frames [1, 3, 3, 2] = (1, 3)
   \<and> map_option fst (autofocus_sweep 40 250 demo_port True (\<lambda>k. True) [1, 3, 3, 2])
       = Some (Inr (ResultDict \<lparr>res_frames = 3, res_best_idx = 1, res_best_score = 3,
            res_best_step = Some 250, res_objective = 40, res_step_size = 250\<rparr>))"
proof -
  have run: "map_option fst (autofocus_sweep 40 250 demo_port True (\<lambda>k. True) [1, 3, 3, 2])
       = Some (Inr (ResultDict \<lparr>res_frames = 3, res_best_idx = 1, res_best_score = 3,
            res_best_step = Some 250, res_objective = 40, res_step_size = 250\<rparr>))"
    by code_simp
  have sc: "score_frames [1, 3, 3, 2] = (1, 3)" by (simp add: score_frames_def)
  show ?thesis
    using score_frames_argmax_first [of "[1, 3, 3, 2]" 40 250 demo_port True "\<lambda>k. True"] run sc
    by simp
qed

section \<open>The capture loop\<close>

lemma arduino_send_port [simp]:
  "rx (snd (arduino_send cmd ser)) = rx ser"
  "is_open (snd (arduino_send cmd ser)) = is_open ser"
  "drained (snd (arduino_send cmd ser)) = Suc (drained ser)"
  "tx (snd (arduino_send cmd ser)) = tx ser @ [py_strip cmd @ [CHR 0x0A]]"
  "fst (arduino_send cmd ser) = join_lines (kept_lines (rx ser (drained ser)))"
  by (simp_all add: arduino_send_def)

lemma capture_loop_returns:
  assumes "0 < step"
  shows "\<exists>ps ser'. capture_loop cam_read step max_steps k pos acc ser = Some (acc @ ps, ser')
           \<and> sorted ps \<and> (\<forall>p\<in>set ps. pos \<le> p \<and> p \<le> max_steps)
           \<and> rx ser' = rx ser \<and> is_open ser' = is_open ser
           \<and> (ps = [] \<longrightarrow> ser' = ser)"
proof (induction "nat (max_steps - pos + 1)" arbitrary: k pos acc ser rule: less_induct)
  case less
  show ?case
  proof (cases "pos \<le> max_steps \<and> cam_read k")
    case False
    then have "capture_loop cam_read step max_steps k pos acc ser = Some (acc @ [], ser)"
      by (subst capture_loop.simps) auto
    then show ?thesis by auto
  next
    case True
    define ser1 where "ser1 = (if pos + step \<le> max_steps
                then snd (arduino_send (CHR ''G'' # str_int step) ser) else ser)"
    have smaller: "nat (max_steps - (pos + step) + 1) < nat (max_steps - pos + 1)"
      using assms True by linarith
    from less [OF smaller, of "Suc k" "acc @ [pos]" ser1]
    obtain ps ser' where rec:
      "capture_loop cam_read step max_steps (Suc k) (pos + step) (acc @ [pos]) ser1
         = Some (acc @ pos # ps, ser')" 
      "sorted ps" "\<forall>p\<in>set ps. pos + step \<le> p \<and> p \<le> max_steps"
      "rx ser' = rx ser1" "is_open ser' = is_open ser1"
      by auto
    have "capture_loop cam_read step max_steps k pos acc ser = Some (acc @ pos # ps, ser')"
      using True rec(1) unfolding ser1_def by (subst capture_loop.simps) simp
    moreover have "sorted (pos # ps)"
      using rec(2,3) assms by auto
    moreover have "\<forall>p\<in>set (pos # ps). pos \<le> p \<and> p \<le> max_steps"
      using rec(3) assms True by auto
    moreover have "rx ser' = rx ser" "is_open ser' = is_open ser"
      using rec(4,5) by (simp_all add: ser1_def)
    ultimately show ?thesis by blast
  qed
qed

lemma capture_loop_first_frame:
  assumes "0 < step" and "0 \<le> max_steps" and "cam_read 0"
    and "capture_loop cam_read step max_steps 0 0 [] ser = Some (ps, ser')"
  shows "ps \<noteq> []"
proof -
  from capture_loop_returns [OF assms(1), of cam_read max_steps "Suc 0" "0 + step" "[0]"]
  obtain qs s where "capture_loop cam_read step max_steps (Suc 0) (0 + step) [0]
      (if 0 + step \<le> max_steps then snd (arduino_send (CHR ''G'' # str_int step) ser) else ser)
      = Some ([0] @ qs, s)"
    by blast
  then have "capture_loop cam_read step max_steps 0 0 [] ser = Some ([0] @ qs, s)"
    using assms(2,3) by (subst capture_loop.simps) simp
  with assms(4) show ?thesis by auto
qed

lemma capture_loop_no_frame:
  assumes "\<not> cam_read 0 \<or> max_steps < 0"
  shows "capture_loop cam_read step max_steps 0 0 [] ser = Some ([], ser)"
  using assms by (subst capture_loop.simps) auto

text \<open>
  C4: with a positive step size the capture loop ends, and the step positions it has
  recorded are in non-decreasing order and none exceeds \<open>max_steps\<close>, the travel limit
  of the sweep.
\<close>

theorem capture_positions_sorted_bounded:
  assumes "0 < step"
  shows "\<exists>frame_positions ser'.
           capture_loop cam_read step max_steps 0 0 [] ser = Some (frame_positions, ser')
         \<and> sorted frame_positions
         \<and> (\<forall>p\<in>set frame_positions. p \<le> max_steps)"
  using capture_loop_returns [OF assms, of cam_read max_steps 0 0 "[]" ser] by auto

theorem capture_positions_sorted_bounded_witness:
  "(0::int) < 250
   \<and> map_option fst (capture_loop (\<lambda>k. True) 250 700 0 0 [] demo_port) = Some [0, 250, 500]
   \<and> sorted [0, 250, 500 :: int] \<and> list_all (\<lambda>p. p \<le> 700) [0, 250, 500 :: int]"
proof -
  have run: "map_option fst (capture_loop (\<lambda>k. True) 250 700 0 0 [] demo_port) = Some [0, 250, 500]"
    by code_simp
  show ?thesis
    using capture_positions_sorted_bounded [of 250 "\<lambda>k. True" 700 demo_port] run
    by simp
qed

section \<open>Rendering and reading integers\<close>

lemma digit_char_cases:
  assumes "d < 10"
  shows "digit_char d \<in> set ''0123456789'' \<and> digit_val (digit_char d) = d"
proof -
  from assms have "d \<in> {0, 1, 2, 3, 4, 5, 6, 7, 8, 9}" by auto
  then show ?thesis
    by (auto simp: digit_char_def digit_val_def)
qed

lemma digit_not_special:
  assumes "is_digit c"
  shows "\<not> is_space c" "c \<noteq> CHR ''_''" "c \<noteq> CHR ''-''" "c \<noteq> CHR ''+''" "c \<noteq> CHR 0x0A"
  using assms by (auto simp: is_digit_def is_space_def)

lemma digit_char_digit: "d < 10 \<Longrightarrow> is_digit (digit_char d)"
  using digit_char_cases [of d] by (simp add: is_digit_def)

lemma str_nat_digits: "str_nat n \<noteq> [] \<and> (\<forall>c\<in>set (str_nat n). is_digit c)"
proof (induction n rule: str_nat.induct)
  case (1 n)
  show ?case
  proof (cases "n < 10")
    case True
    then show ?thesis by (subst (1 2) str_nat.simps) (simp add: digit_char_digit)
  next
    case False
    with 1 show ?thesis by (subst (1 2) str_nat.simps) (simp add: digit_char_digit)
  qed
qed

lemma digits_value_snoc: "digits_value (ds @ [c]) = 10 * digits_value ds + digit_val c"
  by (simp add: digits_value_def)

lemma digits_value_str_nat: "digits_value (str_nat n) = n"
proof (induction n rule: str_nat.induct)
  case (1 n)
  show ?case
  proof (cases "n < 10")
    case True
    then show ?thesis
      using digit_char_cases [of n] by (subst str_nat.simps) (simp add: digits_value_def)
  next
    case False
    with 1 show ?thesis
      using digit_char_cases [of "n mod 10"]
      by (subst str_nat.simps) (simp add: digits_value_snoc)
  qed
qed

lemma digits_ok_all_digits: "ds \<noteq> [] \<Longrightarrow> \<forall>c\<in>set ds. is_digit c \<Longrightarrow> digits_ok ds"
  by (induction ds rule: digits_ok.induct) (auto simp: digit_not_special)

lemma filter_underscore_digits: "\<forall>c\<in>set ds. is_digit c \<Longrightarrow> filter (\<lambda>c. c \<noteq> CHR ''_'') ds = ds"
  by (induction ds) (auto simp: digit_not_special)

lemma py_int_unsigned_str_nat: "py_int_unsigned (str_nat n) = Some (int n)"
  using str_nat_digits [of n]
  by (simp add: py_int_unsigned_def digits_ok_all_digits filter_underscore_digits digits_value_str_nat)

lemma py_strip_id:
  assumes "s \<noteq> []" "\<not> is_space (hd s)" "\<not> is_space (last s)"
  shows "py_strip s = s"
proof -
  from assms(1,2) have "dropWhile is_space s = s" by (cases s) auto
  moreover from assms(1,3) have "dropWhile is_space (rev s) = rev s"
    by (cases "rev s") (auto simp: last_rev [symmetric] simp del: last_rev)
  ultimately show ?thesis by (simp add: py_strip_def)
qed

lemma str_int_shape:
  "str_int i \<noteq> [] \<and> \<not> is_space (hd (str_int i)) \<and> is_digit (last (str_int i))"
proof -
  have d: "s \<noteq> [] \<Longrightarrow> \<forall>c\<in>set s. is_digit c \<Longrightarrow> is_digit (hd s) \<and> is_digit (last s)"
    for s :: string
    by (cases s) auto
  show ?thesis
  proof (cases "i < 0")
    case True
    then show ?thesis
      using str_nat_digits [of "nat (- i)"] d [of "str_nat (nat (- i))"]
      by (simp add: str_int_def is_space_def)
  next
    case False
    then show ?thesis
      using str_nat_digits [of "nat i"] d [of "str_nat (nat i)"]
      by (simp add: str_int_def digit_not_special)
  qed
qed

lemma py_strip_str_int: "py_strip (str_int i) = str_int i"
  using str_int_shape [of i] by (intro py_strip_id) (auto simp: digit_not_special)

lemma py_strip_command: "py_strip (c # str_int i) = c # str_int i" if "\<not> is_space c"
  using str_int_shape [of i] that by (intro py_strip_id) (auto simp: digit_not_special)

lemma py_int_str_int: "py_int (str_int i) = Some i"
proof (cases "i < 0")
  case True
  then show ?thesis
    unfolding py_int_def py_strip_str_int
    by (simp add: str_int_def py_int_unsigned_str_nat)
next
  case False
  obtain c cs where s: "str_nat (nat i) = c # cs" "is_digit c"
    using str_nat_digits [of "nat i"] by (cases "str_nat (nat i)") auto
  have "py_int (str_int i) = py_int_unsigned (c # cs)"
    unfolding py_int_def py_strip_str_int using False s
    by (simp add: str_int_def digit_not_special)
  also have "\<dots> = Some i"
    using py_int_unsigned_str_nat [of "nat i"] s False by simp
  finally show ?thesis .
qed

section \<open>The homing wait\<close>

lemma py_strip_Q [simp]: "py_strip ''Q'' = ''Q''" "py_strip ''Z'' = ''Z''"
  by (simp_all add: py_strip_def is_space_def)

lemma str_int_12: "str_int 12 = ''12''"
  by code_simp

lemma arduino_send_eq:
  "arduino_send cmd ser =
     (join_lines (kept_lines (rx ser (drained ser))),
      ser\<lparr>tx := tx ser @ [py_strip cmd @ [CHR 0x0A]], drained := Suc (drained ser)\<rparr>)"
  by (simp add: arduino_send_def)

lemma wait_homing_none:
  assumes "\<forall>k<n. \<not> homing_marker (join_lines (kept_lines (rx ser (drained ser + k))))"
  shows "wait_homing n ser =
           (False, ser\<lparr>tx := tx ser @ replicate n [CHR ''Q'', CHR 0x0A],
                        drained := drained ser + n\<rparr>)"
  using assms
proof (induction n arbitrary: ser)
  case 0
  then show ?case by simp
next
  case (Suc n)
  let ?ser' = "ser\<lparr>tx := tx ser @ [[CHR ''Q'', CHR 0x0A]], drained := Suc (drained ser)\<rparr>"
  from Suc.prems have first: "\<not> homing_marker (join_lines (kept_lines (rx ser (drained ser))))"
    by (metis add.right_neutral zero_less_Suc)
  have "\<forall>k<n. \<not> homing_marker (join_lines (kept_lines (rx ?ser' (drained ?ser' + k))))"
    using Suc.prems by (auto dest: spec [of _ "Suc _"])
  from Suc.IH [OF this] first show ?case
    by (simp add: arduino_send_eq replicate_append_same)
qed

lemma wait_homing_found:
  assumes "k < n"
    and "homing_marker (join_lines (kept_lines (rx ser (drained ser + k))))"
    and "\<forall>j<k. \<not> homing_marker (join_lines (kept_lines (rx ser (drained ser + j))))"
  shows "wait_homing n ser =
           (True, ser\<lparr>tx := tx ser @ replicate (Suc k) [CHR ''Q'', CHR 0x0A],
                       drained := drained ser + Suc k\<rparr>)"
  using assms
proof (induction n arbitrary: ser k)
  case 0
  then show ?case by simp
next
  case (Suc n)
  let ?ser' = "ser\<lparr>tx := tx ser @ [[CHR ''Q'', CHR 0x0A]], drained := Suc (drained ser)\<rparr>"
  show ?case
  proof (cases k)
    case 0
    with Suc.prems show ?thesis by (simp add: arduino_send_eq)
  next
    case (Suc k')
    with Suc.prems have first: "\<not> homing_marker (join_lines (kept_lines (rx ser (drained ser))))"
      by (metis add.right_neutral zero_less_Suc)
    have a: "k' < n" using Suc Suc.prems by simp
    have b: "homing_marker (join_lines (kept_lines (rx ?ser' (drained ?ser' + k'))))"
      using Suc Suc.prems by simp
    have c: "\<forall>j<k'. \<not> homing_marker (join_lines (kept_lines (rx ?ser' (drained ?ser' + j))))"
      using Suc Suc.prems(3) by (auto dest: spec [of _ "Suc _"])
    from Suc.IH [OF a b c] first Suc show ?thesis
      by (simp add: arduino_send_eq replicate_append_same)
  qed
qed

lemma wait_homing_polls:
  "\<exists>m\<le>n. snd (wait_homing n ser) =
             ser\<lparr>tx := tx ser @ replicate m [CHR ''Q'', CHR 0x0A], drained := drained ser + m\<rparr>"
proof (cases "\<forall>k<n. \<not> homing_marker (join_lines (kept_lines (rx ser (drained ser + k))))")
  case True
  from wait_homing_none [OF this] show ?thesis by (intro exI [of _ n]) simp
next
  case False
  define k where "k = (LEAST k. k < n \<and> homing_marker (join_lines (kept_lines (rx ser (drained ser + k)))))"
  from False have ex: "\<exists>k. k < n \<and> homing_marker (join_lines (kept_lines (rx ser (drained ser + k))))"
    by blast
  from LeastI_ex [OF ex] have k: "k < n" "homing_marker (join_lines (kept_lines (rx ser (drained ser + k))))"
    unfolding k_def by blast+
  have "\<forall>j<k. \<not> homing_marker (join_lines (kept_lines (rx ser (drained ser + j))))"
  proof (intro allI impI notI)
    fix j assume "j < k" "homing_marker (join_lines (kept_lines (rx ser (drained ser + j))))"
    with k(1) have "k \<le> j" unfolding k_def by (intro Least_le) simp
    with \<open>j < k\<close> show False by simp
  qed
  from wait_homing_found [OF k this] k(1) show ?thesis
    by (intro exI [of _ "Suc k"]) simp
qed

lemma sweep_setup_eq:
  assumes "snd (wait_homing 60
             (ser\<lparr>tx := tx ser @ [CHR ''O'' # str_int objective @ [CHR 0x0A], ''V12'' @ [CHR 0x0A],
                                   [CHR ''Z'', CHR 0x0A]],
                  drained := drained ser + 3\<rparr>))
           = ser\<lparr>tx := tx ser @ [CHR ''O'' # str_int objective @ [CHR 0x0A], ''V12'' @ [CHR 0x0A],
                                   [CHR ''Z'', CHR 0x0A]] @ replicate m [CHR ''Q'', CHR 0x0A],
                  drained := drained ser + 3 + m\<rparr>"
  shows "sweep_setup objective ser =
           (read_max_limit (join_lines (kept_lines (rx ser (drained ser + 3 + m)))),
            ser\<lparr>tx := tx ser @ [CHR ''O'' # str_int objective @ [CHR 0x0A], ''V12'' @ [CHR 0x0A],
                                  [CHR ''Z'', CHR 0x0A]] @ replicate (Suc m) [CHR ''Q'', CHR 0x0A],
                 drained := drained ser + 4 + m\<rparr>)"
proof -
  define ser3 where "ser3 = ser\<lparr>tx := tx ser @ [CHR ''O'' # str_int objective @ [CHR 0x0A],
                                 ''V12'' @ [CHR 0x0A], [CHR ''Z'', CHR 0x0A]],
                               drained := drained ser + 3\<rparr>"
  have O: "py_strip (CHR ''O'' # str_int objective) = CHR ''O'' # str_int objective"
    by (rule py_strip_command) (simp add: is_space_def)
  have V: "py_strip (CHR ''V'' # str_int 12) = ''V12''"
    by (simp add: str_int_12 py_strip_def is_space_def)
  have ser3: "snd (arduino_send ''Z'' (snd (arduino_send (CHR ''V'' # str_int 12)
                (snd (arduino_send (CHR ''O'' # str_int objective) ser))))) = ser3"
    by (simp add: arduino_send_eq O V ser3_def)
  obtain homed ser4 where w: "wait_homing 60 ser3 = (homed, ser4)"
    by force
  from assms have ser4: "ser4 = ser\<lparr>tx := tx ser @ [CHR ''O'' # str_int objective @ [CHR 0x0A],
                                 ''V12'' @ [CHR 0x0A], [CHR ''Z'', CHR 0x0A]]
                                 @ replicate m [CHR ''Q'', CHR 0x0A],
                               drained := drained ser + 3 + m\<rparr>"
    unfolding ser3_def [symmetric] w by simp
  have "sweep_setup objective ser
          = (read_max_limit (fst (arduino_send ''Q'' ser4)), snd (arduino_send ''Q'' ser4))"
    unfolding sweep_setup_def Let_def ser3 w by (simp add: split_beta)
  then show ?thesis
    unfolding ser4 by (simp add: arduino_send_eq replicate_append_same)
qed

lemma sweep_setup_polls:
  "\<exists>m\<le>60. sweep_setup objective ser =
           (read_max_limit (join_lines (kept_lines (rx ser (drained ser + 3 + m)))),
            ser\<lparr>tx := tx ser @ [CHR ''O'' # str_int objective @ [CHR 0x0A], ''V12'' @ [CHR 0x0A],
                                  [CHR ''Z'', CHR 0x0A]] @ replicate (Suc m) [CHR ''Q'', CHR 0x0A],
                 drained := drained ser + 4 + m\<rparr>)"
proof -
  let ?ser3 = "ser\<lparr>tx := tx ser @ [CHR ''O'' # str_int objective @ [CHR 0x0A], ''V12'' @ [CHR 0x0A],
                                   [CHR ''Z'', CHR 0x0A]],
                  drained := drained ser + 3\<rparr>"
  from wait_homing_polls [of 60 ?ser3]
  obtain m where m: "m \<le> 60" "snd (wait_homing 60 ?ser3) =
      ?ser3\<lparr>tx := tx ?ser3 @ replicate m [CHR ''Q'', CHR 0x0A], drained := drained ?ser3 + m\<rparr>"
    by blast
  from m(2) have "snd (wait_homing 60 ?ser3) =
      ser\<lparr>tx := tx ser @ [CHR ''O'' # str_int objective @ [CHR 0x0A], ''V12'' @ [CHR 0x0A],
                                   [CHR ''Z'', CHR 0x0A]] @ replicate m [CHR ''Q'', CHR 0x0A],
                  drained := drained ser + 3 + m\<rparr>"
    by simp
  from sweep_setup_eq [OF this] m(1) show ?thesis by blast
qed

section \<open>The corrective move\<close>

lemma score_scan_lower: "min bi idx \<le> fst (score_scan xs idx bi bs)"
proof (induction xs arbitrary: idx bi bs)
  case Nil
  then show ?case by simp
next
  case (Cons x xs)
  show ?case
  proof (cases "bs < x")
    case True
    with Cons [of idx "idx + 1" x] show ?thesis by simp
  next
    case False
    with Cons [of bi "idx + 1" bs] show ?thesis by simp
  qed
qed

lemma score_frames_lower: "- 1 \<le> fst (score_frames video)"
  using score_scan_lower [of "- 1" 0 video "- 1"] by (simp add: score_frames_def)

lemma py_index_empty [simp]: "py_index [] i = Inl IndexError"
  by (simp add: py_index_def)

lemma py_index_last: "xs \<noteq> [] \<Longrightarrow> py_index xs (- 1) = Inr (last xs)"
  by (cases xs rule: rev_cases) (auto simp: py_index_def nth_append)

lemma py_index_nth: "0 \<le> i \<Longrightarrow> i < int (length xs) \<Longrightarrow> py_index xs i = Inr (xs ! nat i)"
  by (simp add: py_index_def)

lemma corrective_delta_empty: "corrective_delta [] best_idx = Inl IndexError"
  by (simp add: corrective_delta_def target_pos_def)

lemma corrective_delta_value:
  assumes "fp \<noteq> []" and "- 1 \<le> bi"
  shows "corrective_delta fp bi =
           Inr ((if bi < 0 then last fp else if bi < int (length fp) then fp ! nat bi else 0)
                - last fp)"
proof -
  from assms(2) consider "bi = - 1" | "0 \<le> bi" "bi < int (length fp)" | "int (length fp) \<le> bi"
    by linarith
  then show ?thesis
  proof cases
    case 1
    with assms(1) show ?thesis
      by (simp add: corrective_delta_def target_pos_def py_index_last)
  next
    case 2
    with assms(1) show ?thesis
      by (simp add: corrective_delta_def target_pos_def py_index_last py_index_nth)
  next
    case 3
    with assms(1) show ?thesis
      by (simp add: corrective_delta_def target_pos_def py_index_last)
  qed
qed

lemma best_step_value:
  assumes "fp \<noteq> []" and "- 1 \<le> bi"
  shows "\<exists>bs. best_step fp bi = Inr bs"
proof -
  from assms(2) consider "bi = - 1" | "0 \<le> bi" "bi < int (length fp)" | "int (length fp) \<le> bi"
    by linarith
  then show ?thesis
  proof cases
    case 1
    with assms(1) show ?thesis by (simp add: best_step_def py_index_last)
  next
    case 2
    with assms(1) show ?thesis by (simp add: best_step_def py_index_nth)
  next
    case 3
    then show ?thesis by (simp add: best_step_def)
  qed
qed

lemma autofocus_sweep_no_frames:
  assumes "sweep_setup objective ser = (max_steps, ser5)"
    and "capture_loop cam_read step max_steps 0 0 [] ser5 = Some ([], ser6)"
  shows "autofocus_sweep objective step ser True cam_read video = Some (Inl IndexError, ser6)"
  using assms by (simp add: autofocus_sweep_def corrective_delta_empty split_beta)

lemma autofocus_sweep_result:
  assumes "sweep_setup objective ser = (max_steps, ser5)"
    and "capture_loop cam_read step max_steps 0 0 [] ser5 = Some (fp, ser6)"
    and "fp \<noteq> []"
  shows "\<exists>delta r. corrective_delta fp (fst (score_frames video)) = Inr delta
           \<and> autofocus_sweep objective step ser True cam_read video
               = Some (Inr (ResultDict r),
                       ser6\<lparr>tx := tx ser6 @ [CHR ''G'' # str_int delta @ [CHR 0x0A]],
                            drained := Suc (drained ser6), is_open := False\<rparr>)
           \<and> res_frames r = length fp \<and> res_best_idx r = fst (score_frames video)"
proof -
  obtain delta where delta: "corrective_delta fp (fst (score_frames video)) = Inr delta"
    using corrective_delta_value [OF assms(3) score_frames_lower] by blast
  obtain bs where bs: "best_step fp (fst (score_frames video)) = Inr bs"
    using best_step_value [OF assms(3) score_frames_lower] by blast
  have G: "py_strip (CHR ''G'' # str_int delta) = CHR ''G'' # str_int delta"
    by (rule py_strip_command) (simp add: is_space_def)
  show ?thesis
    using assms(1,2) delta bs
    by (simp add: autofocus_sweep_def split_beta arduino_send_eq G)
qed

lemma option_pair_collapse: "map_option fst x = Some a \<Longrightarrow> x = Some (a, snd (the x))"
  by (cases x) auto

text \<open>
  C3: when the sweep has recorded at least one position and the scoring loop has
  determined a best index within the recorded positions, \<open>autofocus_sweep\<close> returns its
  result after writing one last command, \<open>G\<close> followed by the decimal rendering of the
  signed difference between the best position and the last position of the sweep; \<open>int\<close>
  reads that rendering back as the same number. With the sweep ending at 4000 and the
  best frame at 3400 the command is \<open>G-600\<close>.
\<close>

theorem corrective_command_encodes_delta:
  assumes "sweep_setup objective ser = (max_steps, ser5)"
    and "capture_loop cam_read step max_steps 0 0 [] ser5 = Some (frame_positions, ser6)"
    and "score_frames video = (best_idx, best_score)"
    and "0 \<le> best_idx" and "best_idx < int (length frame_positions)"
  shows "\<exists>r ser'.
           autofocus_sweep objective step ser True cam_read video = Some (Inr (ResultDict r), ser')
         \<and> tx ser' = tx ser6 @
              [CHR ''G'' # str_int (frame_positions ! nat best_idx - last frame_positions)
                 @ [CHR 0x0A]]
         \<and> py_int (str_int (frame_positions ! nat best_idx - last frame_positions))
             = Some (frame_positions ! nat best_idx - last frame_positions)"
proof -
  from assms(4,5) have ne: "frame_positions \<noteq> []" by auto
  from autofocus_sweep_result [OF assms(1,2) ne, of video]
  obtain delta r where d: "corrective_delta frame_positions best_idx = Inr delta"
    and run: "autofocus_sweep objective step ser True cam_read video
               = Some (Inr (ResultDict r),
                       ser6\<lparr>tx := tx ser6 @ [CHR ''G'' # str_int delta @ [CHR 0x0A]],
                            drained := Suc (drained ser6), is_open := False\<rparr>)"
    using assms(3) by auto
  have "delta = frame_positions ! nat best_idx - last frame_positions"
    using d corrective_delta_value [OF ne, of best_idx] assms(4,5) by simp
  with run show ?thesis by (simp add: py_int_str_int)
qed

theorem corrective_command_encodes_delta_witness:
  "score_frames long_video = (34, 5)
   \<and> map_option fst (capture_loop (\<lambda>k. True) 100 (fst (sweep_setup 40 long_port)) 0 0 []
        (snd (sweep_setup 40 long_port))) = Some (map (\<lambda>i. 100 * int i) [0..<41])
   \<and> map (\<lambda>i. 100 * int i) [0..<41] ! 34 = 3400
   \<and> last (map (\<lambda>i. 100 * int i) [0..<41]) = 4000
   \<and> last (tx (snd (the (autofocus_sweep 40 100 long_port True (\<lambda>k. True) long_video))))
       = ''G-600'' @ [CHR 0x0A]"
proof -
  let ?fp = "map (\<lambda>i. 100 * int i) [0..<41]"
  let ?cap = "capture_loop (\<lambda>k. True) 100 (fst (sweep_setup 40 long_port)) 0 0 []
        (snd (sweep_setup 40 long_port))"
  have sc: "score_frames long_video = (34, 5)" by code_simp
  have cap: "map_option fst ?cap = Some ?fp" by code_simp
  have nth: "?fp ! 34 = 3400" by code_simp
  have lst: "last ?fp = 4000" by code_simp
  have len: "length ?fp = 41" by simp
  have cmd: "CHR ''G'' # str_int (- 600) @ [CHR 0x0A] = ''G-600'' @ [CHR 0x0A]" by code_simp
  from corrective_command_encodes_delta [of 40 long_port "fst (sweep_setup 40 long_port)"
      "snd (sweep_setup 40 long_port)" "\<lambda>k. True" 100 ?fp "snd (the ?cap)" long_video 34 5]
    option_pair_collapse [OF cap] sc len
  obtain r ser' where
    "autofocus_sweep 40 100 long_port True (\<lambda>k. True) long_video = Some (Inr (ResultDict r), ser')"
    "tx ser' = tx (snd (the ?cap)) @ [CHR ''G'' # str_int (?fp ! nat 34 - last ?fp) @ [CHR 0x0A]]"
    by auto
  then have "last (tx (snd (the (autofocus_sweep 40 100 long_port True (\<lambda>k. True) long_video))))
       = CHR ''G'' # str_int (?fp ! 34 - last ?fp) @ [CHR 0x0A]"
    by simp
  with sc cap nth lst cmd show ?thesis by simp
qed

lemma sorted_nth_le_last:
  fixes xs :: "int list"
  assumes "sorted xs" and "i < length xs"
  shows "xs ! i \<le> last xs"
proof -
  from assms(2) have "xs \<noteq> []" by auto
  then have "last xs = xs ! (length xs - 1)" by (rule last_conv_nth)
  moreover have "xs ! i \<le> xs ! (length xs - 1)"
    using assms by (intro sorted_nth_mono) auto
  ultimately show ?thesis by simp
qed

text \<open>
  C10: in a sweep with a positive step size that has recorded at least one position,
  the difference \<open>target_pos - frame_positions[-1]\<close> is computed without error and is at most
  zero, so the last command, \<open>G\<close> with that difference, never moves the stage past the last
  position of the sweep. When the best index is not below the number of recorded
  positions the target is 0 and the difference is minus the last position.
\<close>

theorem corrective_delta_never_forward:
  assumes "0 < step"
    and "sweep_setup objective ser = (max_steps, ser5)"
    and "capture_loop cam_read step max_steps 0 0 [] ser5 = Some (frame_positions, ser6)"
    and "frame_positions \<noteq> []"
  shows "\<exists>delta r ser'.
           corrective_delta frame_positions (fst (score_frames video)) = Inr delta
         \<and> delta \<le> 0
         \<and> (int (length frame_positions) \<le> fst (score_frames video)
              \<longrightarrow> delta = 0 - last frame_positions)
         \<and> autofocus_sweep objective step ser True cam_read video = Some (Inr (ResultDict r), ser')
         \<and> tx ser' = tx ser6 @ [CHR ''G'' # str_int delta @ [CHR 0x0A]]"
proof -
  let ?bi = "fst (score_frames video)"
  from capture_loop_returns [OF assms(1), of cam_read max_steps 0 0 "[]" ser5] assms(3)
  have sorted: "sorted frame_positions" and nonneg: "\<forall>p\<in>set frame_positions. 0 \<le> p"
    by auto
  from assms(4) nonneg have last0: "0 \<le> last frame_positions"
    using last_in_set by blast
  from autofocus_sweep_result [OF assms(2,3,4), of video]
  obtain delta r where d: "corrective_delta frame_positions ?bi = Inr delta"
    and run: "autofocus_sweep objective step ser True cam_read video
               = Some (Inr (ResultDict r),
                       ser6\<lparr>tx := tx ser6 @ [CHR ''G'' # str_int delta @ [CHR 0x0A]],
                            drained := Suc (drained ser6), is_open := False\<rparr>)"
    by auto
  from d corrective_delta_value [OF assms(4) score_frames_lower, of video]
  have dv: "delta = (if ?bi < 0 then last frame_positions
                     else if ?bi < int (length frame_positions) then frame_positions ! nat ?bi
                     else 0) - last frame_positions"
    by simp
  have "delta \<le> 0"
  proof (cases "0 \<le> ?bi \<and> ?bi < int (length frame_positions)")
    case True
    then have "frame_positions ! nat ?bi \<le> last frame_positions"
      by (intro sorted_nth_le_last [OF sorted]) linarith
    with True dv show ?thesis by simp
  next
    case False
    with dv last0 show ?thesis by auto
  qed
  moreover have "int (length frame_positions) \<le> ?bi \<longrightarrow> delta = 0 - last frame_positions"
    using dv by auto
  ultimately show ?thesis using d run by auto
qed

theorem corrective_delta_never_forward_witness:
  "(0::int) < 250
   \<and> map_option fst (capture_loop (\<lambda>k. True) 250 (fst (sweep_setup 40 demo_port)) 0 0 []
        (snd (sweep_setup 40 demo_port))) = Some [0, 250, 500]
   \<and> fst (score_frames [1, 2, 3, 4, 5, 6]) = 5
   \<and> corrective_delta [0, 250, 500] (fst (score_frames [1, 2, 3, 4, 5, 6])) = Inr (- 500)
   \<and> last (tx (snd (the (autofocus_sweep 40 250 demo_port True (\<lambda>k. True) [1, 2, 3, 4, 5, 6]))))
       = ''G-500'' @ [CHR 0x0A]"
proof -
  let ?cap = "capture_loop (\<lambda>k. True) 250 (fst (sweep_setup 40 demo_port)) 0 0 []
        (snd (sweep_setup 40 demo_port))"
  have cap: "map_option fst ?cap = Some [0, 250, 500]" by code_simp
  have sc: "fst (score_frames [1, 2, 3, 4, 5, 6]) = 5" by code_simp
  have cd: "corrective_delta [0, 250, 500] (fst (score_frames [1, 2, 3, 4, 5, 6])) = Inr (- 500)"
    by code_simp
  have cmd: "CHR ''G'' # str_int (- 500) @ [CHR 0x0A] = ''G-500'' @ [CHR 0x0A]" by code_simp
  from corrective_delta_never_forward [of 250 40 demo_port "fst (sweep_setup 40 demo_port)"
      "snd (sweep_setup 40 demo_port)" "\<lambda>k. True" "[0, 250, 500]" "snd (the ?cap)"
      "[1, 2, 3, 4, 5, 6]"]
    option_pair_collapse [OF cap]
  obtain delta r ser' where
    "corrective_delta [0, 250, 500] (fst (score_frames [1, 2, 3, 4, 5, 6])) = Inr delta"
    "autofocus_sweep 40 250 demo_port True (\<lambda>k. True) [1, 2, 3, 4, 5, 6]
       = Some (Inr (ResultDict r), ser')"
    "tx ser' = tx (snd (the ?cap)) @ [CHR ''G'' # str_int delta @ [CHR 0x0A]]"
    by auto
  with cd have "last (tx (snd (the (autofocus_sweep 40 250 demo_port True (\<lambda>k. True)
                   [1, 2, 3, 4, 5, 6])))) = CHR ''G'' # str_int (- 500) @ [CHR 0x0A]"
    by simp
  with cap sc cd cmd show ?thesis by simp
qed

text \<open>
  C2: when the first read of the camera fails, no position is recorded, and
  \<open>autofocus_sweep\<close> does not return a dictionary: \<open>frame_positions[-1]\<close> (or, with no frame
  scored, already \<open>frame_positions[best_idx]\<close> with \<open>best_idx = -1\<close>) raises \<open>IndexError\<close>, which
  leaves the function. Nothing was written to the port after the status query for the
  travel limit, so no move was commanded; the port is left open.
\<close>

theorem zero_frames_raise_index_error:
  assumes "\<not> cam_read 0"
  shows "\<exists>ser5 m. m \<le> 60
         \<and> autofocus_sweep objective step ser True cam_read video = Some (Inl IndexError, ser5)
         \<and> is_open ser5 = is_open ser
         \<and> tx ser5 = tx ser @ [CHR ''O'' # str_int objective @ [CHR 0x0A], ''V12'' @ [CHR 0x0A],
                               [CHR ''Z'', CHR 0x0A]] @ replicate (Suc m) [CHR ''Q'', CHR 0x0A]"
proof -
  from sweep_setup_polls [of objective ser]
  obtain m where m: "m \<le> 60" and su: "sweep_setup objective ser =
           (read_max_limit (join_lines (kept_lines (rx ser (drained ser + 3 + m)))),
            ser\<lparr>tx := tx ser @ [CHR ''O'' # str_int objective @ [CHR 0x0A], ''V12'' @ [CHR 0x0A],
                                  [CHR ''Z'', CHR 0x0A]] @ replicate (Suc m) [CHR ''Q'', CHR 0x0A],
                 drained := drained ser + 4 + m\<rparr>)"
    by blast
  have cap: "capture_loop cam_read step mx 0 0 [] s5 = Some ([], s5)" for mx s5
    using assms by (intro capture_loop_no_frame) simp
  from autofocus_sweep_no_frames [OF su cap, of video] m
  show ?thesis by (intro exI [of _ m] exI conjI) (assumption | simp)+
qed

theorem zero_frames_raise_index_error_witness:
  "map_option fst (autofocus_sweep 40 250 demo_port True (\<lambda>k. False) []) = Some (Inl IndexError)
   \<and> map_option (\<lambda>(r, ser5). (tx ser5, is_open ser5))
        (autofocus_sweep 40 250 demo_port True (\<lambda>k. False) [])
      = Some ([''O40'' @ [CHR 0x0A], ''V12'' @ [CHR 0x0A], [CHR ''Z'', CHR 0x0A],
               [CHR ''Q'', CHR 0x0A], [CHR ''Q'', CHR 0x0A], [CHR ''Q'', CHR 0x0A]], True)"
proof -
  have tx: "map_option (\<lambda>(r, ser5). (tx ser5, is_open ser5))
        (autofocus_sweep 40 250 demo_port True (\<lambda>k. False) [])
      = Some ([''O40'' @ [CHR 0x0A], ''V12'' @ [CHR 0x0A], [CHR ''Z'', CHR 0x0A],
               [CHR ''Q'', CHR 0x0A], [CHR ''Q'', CHR 0x0A], [CHR ''Q'', CHR 0x0A]], True)"
    by code_simp
  from zero_frames_raise_index_error [of "\<lambda>k. False" 40 250 demo_port "[]"]
  have "map_option fst (autofocus_sweep 40 250 demo_port True (\<lambda>k. False) []) = Some (Inl IndexError)"
    by auto
  with tx show ?thesis by simp
qed

section \<open>Homing is awaited for at most sixty status queries\<close>

text \<open>
  C9: after \<open>O\<close>, \<open>V12\<close> and \<open>Z\<close>, \<open>autofocus_sweep\<close> writes \<open>m\<close> status queries for the homing
  wait, with \<open>m\<close> at most 60, and then the status query for the travel limit. When the
  \<open>k\<close>-th reply of the wait is the first that holds \<open>Homing complete.\<close> or, in any letter
  case, \<open>homed\<close>, the wait ends with it (\<open>m = k + 1\<close>). When none of the 60 replies holds a
  marker, \<open>m = 60\<close> and the sweep goes on all the same: with a positive step size, a first
  frame read and a travel limit that is not negative it returns its result dictionary.
\<close>

theorem homing_wait_bounded_nonfatal:
  "\<exists>m\<le>60.
      tx (snd (sweep_setup objective ser))
        = tx ser @ [CHR ''O'' # str_int objective @ [CHR 0x0A], ''V12'' @ [CHR 0x0A],
                    [CHR ''Z'', CHR 0x0A]]
            @ replicate m [CHR ''Q'', CHR 0x0A] @ [[CHR ''Q'', CHR 0x0A]]
    \<and> (\<forall>k<60. homing_marker (join_lines (kept_lines (rx ser (drained ser + 3 + k))))
               \<and> (\<forall>j<k. \<not> homing_marker (join_lines (kept_lines (rx ser (drained ser + 3 + j)))))
            \<longrightarrow> m = Suc k)
    \<and> ((\<forall>k<60. \<not> homing_marker (join_lines (kept_lines (rx ser (drained ser + 3 + k)))))
          \<longrightarrow> m = 60
              \<and> (0 < step \<and> cam_read 0 \<and> 0 \<le> fst (sweep_setup objective ser)
                   \<longrightarrow> (\<exists>r ser'. autofocus_sweep objective step ser True cam_read video
                                    = Some (Inr (ResultDict r), ser')
                                \<and> 0 < res_frames r)))"
proof -
  let ?marker = "\<lambda>k. homing_marker (join_lines (kept_lines (rx ser (drained ser + 3 + k))))"
  let ?pre = "tx ser @ [CHR ''O'' # str_int objective @ [CHR 0x0A], ''V12'' @ [CHR 0x0A],
                    [CHR ''Z'', CHR 0x0A]]"
  let ?ser3 = "ser\<lparr>tx := ?pre, drained := drained ser + 3\<rparr>"
  have shift: "homing_marker (join_lines (kept_lines (rx ?ser3 (drained ?ser3 + k)))) = ?marker k"
    for k by simp
  have setup_tx: "tx (snd (sweep_setup objective ser))
        = ?pre @ replicate m [CHR ''Q'', CHR 0x0A] @ [[CHR ''Q'', CHR 0x0A]]"
    if "snd (wait_homing 60 ?ser3)
          = ser\<lparr>tx := ?pre @ replicate m [CHR ''Q'', CHR 0x0A], drained := drained ser + 3 + m\<rparr>"
    for m
    using sweep_setup_eq [where ser = ser and objective = objective and m = m] that
    by (simp add: replicate_append_same)
  show ?thesis
  proof (cases "\<forall>k<60. \<not> ?marker k")
    case True
    then have "\<forall>k<60. \<not> homing_marker (join_lines (kept_lines (rx ?ser3 (drained ?ser3 + k))))"
      unfolding shift .
    from wait_homing_none [OF this]
    have "snd (wait_homing 60 ?ser3)
          = ser\<lparr>tx := ?pre @ replicate 60 [CHR ''Q'', CHR 0x0A], drained := drained ser + 3 + 60\<rparr>"
      by simp
    from setup_tx [OF this]
    have t: "tx (snd (sweep_setup objective ser))
        = ?pre @ replicate 60 [CHR ''Q'', CHR 0x0A] @ [[CHR ''Q'', CHR 0x0A]]" .
    have run: "\<exists>r ser'. autofocus_sweep objective step ser True cam_read video
                                    = Some (Inr (ResultDict r), ser') \<and> 0 < res_frames r"
      if "0 < step" "cam_read 0" "0 \<le> fst (sweep_setup objective ser)"
    proof -
      obtain max_steps ser5 where su: "sweep_setup objective ser = (max_steps, ser5)"
        by force
      from capture_loop_returns [OF that(1), of cam_read max_steps 0 0 "[]" ser5]
      obtain fp ser6 where cap: "capture_loop cam_read step max_steps 0 0 [] ser5 = Some (fp, ser6)"
        by auto
      from that(3) su have "0 \<le> max_steps" by simp
      from capture_loop_first_frame [OF that(1) this that(2) cap] have ne: "fp \<noteq> []" .
      from autofocus_sweep_result [OF su cap ne, of video] ne show ?thesis by auto
    qed
    from True t run show ?thesis by (intro exI [of _ 60]) auto
  next
    case False
    define k0 where "k0 = (LEAST k. k < 60 \<and> ?marker k)"
    from False have ex: "\<exists>k. k < 60 \<and> ?marker k" by blast
    from LeastI_ex [OF ex] have k0: "k0 < 60" "?marker k0"
      unfolding k0_def by blast+
    have least: "k0 \<le> k" if "k < 60" "?marker k" for k
      unfolding k0_def using that by (intro Least_le) simp
    have before: "\<forall>j<k0. \<not> ?marker j"
      using least k0(1) by (meson less_trans not_less)
    have uniq: "k = k0" if "k < 60" "?marker k" "\<forall>j<k. \<not> ?marker j" for k
    proof (rule ccontr)
      assume "k \<noteq> k0"
      with least [OF that(1,2)] have "k0 < k" by simp
      with that(3) k0(2) show False by blast
    qed
    have a: "homing_marker (join_lines (kept_lines (rx ?ser3 (drained ?ser3 + k0))))"
      using k0(2) unfolding shift .
    have b: "\<forall>j<k0. \<not> homing_marker (join_lines (kept_lines (rx ?ser3 (drained ?ser3 + j))))"
      using before unfolding shift .
    from wait_homing_found [OF k0(1) a b]
    have "snd (wait_homing 60 ?ser3)
          = ser\<lparr>tx := ?pre @ replicate (Suc k0) [CHR ''Q'', CHR 0x0A],
                 drained := drained ser + 3 + Suc k0\<rparr>"
      by simp
    from setup_tx [OF this]
    have t: "tx (snd (sweep_setup objective ser))
        = ?pre @ replicate (Suc k0) [CHR ''Q'', CHR 0x0A] @ [[CHR ''Q'', CHR 0x0A]]" .
    from k0(1) have "Suc k0 \<le> 60" by simp
    with t uniq False show ?thesis by (intro exI [of _ "Suc k0"]) auto
  qed
qed

theorem homing_wait_bounded_nonfatal_witness:
  "tx (snd (sweep_setup 40 silent_port))
     = [''O40'' @ [CHR 0x0A], ''V12'' @ [CHR 0x0A], [CHR ''Z'', CHR 0x0A]]
         @ replicate 60 [CHR ''Q'', CHR 0x0A] @ [[CHR ''Q'', CHR 0x0A]]
   \<and> (\<exists>r ser'. autofocus_sweep 40 500 silent_port True (\<lambda>k. True) []
                   = Some (Inr (ResultDict r), ser') \<and> 0 < res_frames r)
   \<and> tx (snd (sweep_setup 40 shouting_port))
     = [''O40'' @ [CHR 0x0A], ''V12'' @ [CHR 0x0A], [CHR ''Z'', CHR 0x0A]]
         @ replicate 3 [CHR ''Q'', CHR 0x0A] @ [[CHR ''Q'', CHR 0x0A]]"
proof -
  have O: "CHR ''O'' # str_int 40 @ [CHR 0x0A] = ''O40'' @ [CHR 0x0A]" by code_simp
  have quiet: "\<forall>k<60. \<not> homing_marker (join_lines (kept_lines
                 (rx silent_port (drained silent_port + 3 + k))))"
    by (simp add: silent_port_def kept_lines_def homing_marker_def py_lower_def)
  have limit: "0 \<le> fst (sweep_setup 40 silent_port)" by code_simp
  from homing_wait_bounded_nonfatal [of 40 silent_port 500 "\<lambda>k. True" "[]"] quiet limit
  have silent: "tx (snd (sweep_setup 40 silent_port))
     = tx silent_port @ [CHR ''O'' # str_int 40 @ [CHR 0x0A], ''V12'' @ [CHR 0x0A],
                          [CHR ''Z'', CHR 0x0A]]
         @ replicate 60 [CHR ''Q'', CHR 0x0A] @ [[CHR ''Q'', CHR 0x0A]]"
    and run: "\<exists>r ser'. autofocus_sweep 40 500 silent_port True (\<lambda>k. True) []
                   = Some (Inr (ResultDict r), ser') \<and> 0 < res_frames r"
    by auto
  have m0: "\<not> homing_marker (join_lines (kept_lines
                 (rx shouting_port (drained shouting_port + 3 + 0))))" by code_simp
  have m1: "\<not> homing_marker (join_lines (kept_lines
                 (rx shouting_port (drained shouting_port + 3 + 1))))" by code_simp
  have m2: "homing_marker (join_lines (kept_lines
                 (rx shouting_port (drained shouting_port + 3 + 2))))" by code_simp
  have before: "\<forall>j<2. \<not> homing_marker (join_lines (kept_lines
                 (rx shouting_port (drained shouting_port + 3 + j))))"
    using m0 m1 by (auto simp: less_2_cases_iff)
  from homing_wait_bounded_nonfatal [of 40 shouting_port 500 "\<lambda>k. True" "[]"]
  obtain m where m: "tx (snd (sweep_setup 40 shouting_port))
     = tx shouting_port @ [CHR ''O'' # str_int 40 @ [CHR 0x0A], ''V12'' @ [CHR 0x0A],
                          [CHR ''Z'', CHR 0x0A]]
         @ replicate m [CHR ''Q'', CHR 0x0A] @ [[CHR ''Q'', CHR 0x0A]]"
    and stop: "\<forall>k<60. homing_marker (join_lines (kept_lines
                   (rx shouting_port (drained shouting_port + 3 + k))))
               \<and> (\<forall>j<k. \<not> homing_marker (join_lines (kept_lines
                   (rx shouting_port (drained shouting_port + 3 + j)))))
            \<longrightarrow> m = Suc k"
    by blast
  from stop have "homing_marker (join_lines (kept_lines
                   (rx shouting_port (drained shouting_port + 3 + 2))))
               \<and> (\<forall>j<2. \<not> homing_marker (join_lines (kept_lines
                   (rx shouting_port (drained shouting_port + 3 + j)))))
            \<longrightarrow> m = Suc 2"
    by (rule allE [of _ 2]) simp
  with m2 before have "m = 3" by simp
  with m have shout: "tx (snd (sweep_setup 40 shouting_port))
     = tx shouting_port @ [CHR ''O'' # str_int 40 @ [CHR 0x0A], ''V12'' @ [CHR 0x0A],
                          [CHR ''Z'', CHR 0x0A]]
         @ replicate 3 [CHR ''Q'', CHR 0x0A] @ [[CHR ''Q'', CHR 0x0A]]"
    by simp
  have e: "tx silent_port = []" "tx shouting_port = []"
    by (simp_all add: silent_port_def shouting_port_def)
  from silent run shout show ?thesis
    unfolding O e by simp
qed

section \<open>Which match the parsers keep\<close>

lemma starts_with_append:
  "length pat \<le> length s \<Longrightarrow> starts_with pat (s @ t) = starts_with pat s"
  by (induction pat s rule: starts_with.induct) auto

lemma starts_with_length: "starts_with pat s \<Longrightarrow> length pat \<le> length s"
  by (induction pat s rule: starts_with.induct) auto

lemma starts_with_Position:
  "starts_with ''Position:'' s \<longleftrightarrow> (\<exists>r. s = ''Position:'' @ r)"
  by (auto simp: neq_Nil_conv elim!: starts_with.elims)

lemma takeWhile_stop: "\<not> P c \<Longrightarrow> takeWhile P (xs @ c # t) = takeWhile P xs"
  by (induction xs) auto

lemma match_position_at_extend:
  assumes "match_position_at s = Some p" and "\<not> is_digit c"
  shows "match_position_at (s @ c # t) = Some p"
proof -
  from assms(1) have sw: "starts_with ''Position:'' s"
    by (auto simp: match_position_at_def split: if_splits)
  then obtain r where s: "s = ''Position:'' @ r"
    unfolding starts_with_Position by blast
  let ?rest = "dropWhile is_space r"
  from assms(1) s have ds: "takeWhile is_digit ?rest \<noteq> []"
    and p: "p = int (digits_value (takeWhile is_digit ?rest))"
    by (auto simp: match_position_at_def Let_def split: if_splits)
  have "\<exists>x\<in>set r. \<not> is_space x"
  proof (rule ccontr)
    assume "\<not> (\<exists>x\<in>set r. \<not> is_space x)"
    then have "?rest = []" by simp
    with ds show False by simp
  qed
  then have dw: "dropWhile is_space (r @ c # t) = ?rest @ c # t"
    by (blast intro: dropWhile_append1)
  have tw: "takeWhile is_digit (?rest @ c # t) = takeWhile is_digit ?rest"
    using assms(2) by (rule takeWhile_stop)
  show ?thesis
    using ds p by (simp add: match_position_at_def s dw tw)
qed

lemma position_found_nonspace:
  "get_position_from_response s = Some p \<Longrightarrow> \<exists>x\<in>set s. \<not> is_space x"
proof (induction s)
  case Nil
  then show ?case by (simp add: match_position_at_def)
next
  case (Cons c cs)
  show ?case
  proof (cases "match_position_at (c # cs)")
    case None
    with Cons show ?thesis by auto
  next
    case (Some q)
    then have "starts_with ''Position:'' (c # cs)"
      by (auto simp: match_position_at_def split: if_splits)
    then have "c = CHR ''P''" by simp
    then show ?thesis by (simp add: is_space_def)
  qed
qed

lemma position_found_length:
  "get_position_from_response s = Some p \<Longrightarrow> 9 \<le> length s"
proof (induction s)
  case Nil
  then show ?case by (simp add: match_position_at_def)
next
  case (Cons c cs)
  show ?case
  proof (cases "match_position_at (c # cs)")
    case None
    with Cons show ?thesis by auto
  next
    case (Some q)
    then have "starts_with ''Position:'' (c # cs)"
      by (auto simp: match_position_at_def split: if_splits)
    from starts_with_length [OF this] show ?thesis by simp
  qed
qed

lemma match_position_at_none_extend:
  assumes "match_position_at (c # cs) = None"
    and "get_position_from_response cs = Some p"
  shows "match_position_at ((c # cs) @ t) = None"
proof (cases "starts_with ''Position:'' (c # cs)")
  case False
  from position_found_length [OF assms(2)] have "length ''Position:'' \<le> length (c # cs)"
    by simp
  from starts_with_append [OF this, of t] False
  have "\<not> starts_with ''Position:'' ((c # cs) @ t)" by blast
  then show ?thesis
    by (simp only: match_position_at_def if_False)
next
  case True
  then obtain r where s: "c # cs = ''Position:'' @ r"
    unfolding starts_with_Position by blast
  then have cs: "cs = ''osition:'' @ r" by simp
  have "get_position_from_response cs = get_position_from_response r"
    unfolding cs by (simp add: match_position_at_def)
  with assms(2) have "\<exists>x\<in>set r. \<not> is_space x"
    using position_found_nonspace by simp
  then have dw: "dropWhile is_space (r @ t) = dropWhile is_space r @ t"
    and ne: "dropWhile is_space r \<noteq> []"
    by (blast intro: dropWhile_append1, simp)
  from assms(1) s have "takeWhile is_digit (dropWhile is_space r) = []"
    by (auto simp: match_position_at_def Let_def split: if_splits)
  with ne have "\<not> is_digit (hd (dropWhile is_space r))"
    by (cases "dropWhile is_space r") (auto split: if_splits)
  with ne have "takeWhile is_digit (dropWhile is_space r @ t) = []"
    by (cases "dropWhile is_space r") auto
  then have "match_position_at (''Position:'' @ r @ t) = None"
    by (simp add: match_position_at_def dw)
  with s show ?thesis by (metis append.assoc)
qed

text \<open>
  C5, as the code has it: the position extracted is that of the first match. Once the
  text up to the end of some line holds a match, whatever follows that line does not
  change the position extracted.
\<close>

theorem position_first_match_wins:
  assumes "get_position_from_response head = Some p"
  shows "get_position_from_response (head @ CHR 0x0A # rest) = Some p"
  using assms
proof (induction head)
  case Nil
  then show ?case by (simp add: match_position_at_def)
next
  case (Cons c cs)
  show ?case
  proof (cases "match_position_at (c # cs)")
    case (Some q)
    with Cons.prems have "q = p" by simp
    with Some have "match_position_at ((c # cs) @ CHR 0x0A # rest) = Some p"
      by (intro match_position_at_extend) (simp_all add: is_digit_def)
    then show ?thesis by simp
  next
    case None
    with Cons.prems have later: "get_position_from_response cs = Some p" by simp
    from match_position_at_none_extend [OF None later, of "CHR 0x0A # rest"]
    have "match_position_at ((c # cs) @ CHR 0x0A # rest) = None" .
    with Cons.IH [OF later] show ?thesis by simp
  qed
qed

theorem position_first_match_wins_witness:
  "get_position_from_response ''Position: 100'' = Some 100
   \<and> get_position_from_response (''Position: 100'' @ CHR 0x0A # ''Position: 150'' @ [CHR 0x0A])
       = Some 100"
proof -
  have h: "get_position_from_response ''Position: 100'' = Some 100" by code_simp
  from position_first_match_wins [OF h, of "''Position: 150'' @ [CHR 0x0A]"] h
  show ?thesis by simp
qed

text \<open>
  Against C5 as stated: of two matching lines, 100 then 150, the parser does not return
  the last.
\<close>

theorem position_last_match_counterexample:
  "splitlines (''Position: 100'' @ CHR 0x0A # ''Position: 150'' @ [CHR 0x0A])
     = [''Position: 100'', ''Position: 150'']
   \<and> get_position_from_response ''Position: 150'' = Some 150
   \<and> get_position_from_response (''Position: 100'' @ CHR 0x0A # ''Position: 150'' @ [CHR 0x0A])
       \<noteq> Some 150"
  by code_simp

lemma max_limit_scan_last:
  "max_limit_scan lines d = last (d # List.map_filter limit_of_line lines)"
proof (induction lines arbitrary: d)
  case Nil
  then show ?case by (simp add: List.map_filter_simps)
next
  case (Cons line rest)
  show ?case
  proof (cases "limit_of_line line")
    case None
    with Cons [of d] show ?thesis by (simp add: List.map_filter_simps)
  next
    case (Some v)
    with Cons [of v] show ?thesis by (simp add: List.map_filter_simps)
  qed
qed

text \<open>
  C6, as the code has it: the travel limit adopted is the value of the last line of
  the reply that holds \<open>Max limit:\<close> followed by an integer, and the default 9000 when no
  line does.
\<close>

theorem max_limit_last_match_wins:
  "read_max_limit resp = last (9000 # List.map_filter limit_of_line (splitlines resp))"
  by (simp add: read_max_limit_def max_limit_scan_last)

text \<open>
  Against C6 as stated: of two matching lines, 100 then 200, the sweep does not adopt
  the first.
\<close>

theorem max_limit_first_match_counterexample:
  "splitlines (''Max limit: 100'' @ CHR 0x0A # ''Max limit: 200'')
     = [''Max limit: 100'', ''Max limit: 200'']
   \<and> limit_of_line ''Max limit: 100'' = Some 100
   \<and> limit_of_line ''Max limit: 200'' = Some 200
   \<and> read_max_limit (''Max limit: 100'' @ CHR 0x0A # ''Max limit: 200'') \<noteq> 100"
  by code_simp

section \<open>Confirming a move\<close>

lemma poll_status_eq:
  "poll_status ser =
     (concat (map (\<lambda>line. line @ [CHR 0x0A]) (kept_lines (rx ser (drained ser)))),
      ser\<lparr>tx := tx ser @ [[CHR ''Q'', CHR 0x0A]], drained := Suc (drained ser)\<rparr>)"
  by (simp add: poll_status_def)

lemma match_position_at_empty [simp]: "match_position_at [] = None"
  by (simp add: match_position_at_def)

lemma confirm_loop_continue:
  assumes "clock (Suc i) - clock 0 < timeout"
    and "get_position_from_response
           (concat (map (\<lambda>line. line @ [CHR 0x0A]) (kept_lines (rx ser (drained ser))))) = None
       \<or> get_position_from_response
           (concat (map (\<lambda>line. line @ [CHR 0x0A]) (kept_lines (rx ser (drained ser))))) = Some l"
    and "last_position = None \<or> last_position = Some l"
  shows "\<exists>mid last'. confirm_loop clock timeout i ser last_position out
           = confirm_loop clock timeout (Suc i)
               (ser\<lparr>tx := tx ser @ [[CHR ''Q'', CHR 0x0A]], drained := Suc (drained ser)\<rparr>)
               last' (out @ mid)
         \<and> (last' = None \<or> last' = Some l)
         \<and> (last_position = Some l \<longrightarrow> last' = Some l)"
proof -
  let ?resp = "concat (map (\<lambda>line. line @ [CHR 0x0A]) (kept_lines (rx ser (drained ser))))"
  let ?ser' = "ser\<lparr>tx := tx ser @ [[CHR ''Q'', CHR 0x0A]], drained := Suc (drained ser)\<rparr>"
  show ?thesis
  proof (cases "?resp = []")
    case True
    with assms(1) have "confirm_loop clock timeout i ser last_position out
           = confirm_loop clock timeout (Suc i) ?ser' last_position (out @ [])"
      by (subst confirm_loop.simps) (simp add: poll_status_eq)
    with assms(3) show ?thesis by blast
  next
    case False
    from assms(2) show ?thesis
    proof
      assume none: "get_position_from_response ?resp = None"
      with assms(1) False have "confirm_loop clock timeout i ser last_position out
           = confirm_loop clock timeout (Suc i) ?ser' last_position (out @ [ArduinoResponse ?resp])"
        by (subst confirm_loop.simps) (simp add: poll_status_eq split: option.splits)
      with assms(3) show ?thesis by blast
    next
      assume some: "get_position_from_response ?resp = Some l"
      with assms(1,3) False have "confirm_loop clock timeout i ser last_position out
           = confirm_loop clock timeout (Suc i) ?ser' (Some l) (out @ [ArduinoResponse ?resp])"
        by (subst confirm_loop.simps) (auto simp: poll_status_eq split: option.splits)
      then show ?thesis by blast
    qed
  qed
qed

lemma confirm_loop_changed:
  assumes "\<forall>j\<le>n. clock (Suc (i + j)) - clock 0 < timeout"
    and "\<forall>j<n. get_position_from_response
           (concat (map (\<lambda>line. line @ [CHR 0x0A]) (kept_lines (rx ser (drained ser + j))))) = None
       \<or> get_position_from_response
           (concat (map (\<lambda>line. line @ [CHR 0x0A]) (kept_lines (rx ser (drained ser + j))))) = Some l"
    and "get_position_from_response
           (concat (map (\<lambda>line. line @ [CHR 0x0A]) (kept_lines (rx ser (drained ser + n))))) = Some p"
    and "p \<noteq> l"
  shows "\<exists>mid. confirm_loop clock timeout i ser (Some l) out
           = Some (Some p,
                   ser\<lparr>tx := tx ser @ replicate (Suc n) [CHR ''Q'', CHR 0x0A],
                       drained := drained ser + Suc n\<rparr>,
                   out @ mid @ [PositionChanged l p])"
  using assms
proof (induction n arbitrary: i ser out)
  case 0
  let ?resp = "concat (map (\<lambda>line. line @ [CHR 0x0A]) (kept_lines (rx ser (drained ser))))"
  from 0(3) have p: "get_position_from_response ?resp = Some p" by simp
  then have ne: "?resp \<noteq> []" by auto
  from 0(1) have t: "clock (Suc i) - clock 0 < timeout" by simp
  have "confirm_loop clock timeout i ser (Some l) out
          = Some (Some p, ser\<lparr>tx := tx ser @ [[CHR ''Q'', CHR 0x0A]], drained := Suc (drained ser)\<rparr>,
                  out @ [ArduinoResponse ?resp] @ [PositionChanged l p])"
    using t ne p 0(4) by (subst confirm_loop.simps) (simp add: poll_status_eq)
  then show ?case by (intro exI [of _ "[ArduinoResponse ?resp]"]) simp
next
  case (Suc n)
  let ?ser' = "ser\<lparr>tx := tx ser @ [[CHR ''Q'', CHR 0x0A]], drained := Suc (drained ser)\<rparr>"
  from Suc.prems(1) have t: "clock (Suc i) - clock 0 < timeout"
    by (metis add.right_neutral le0)
  from Suc.prems(2) have r0: "get_position_from_response
           (concat (map (\<lambda>line. line @ [CHR 0x0A]) (kept_lines (rx ser (drained ser))))) = None
       \<or> get_position_from_response
           (concat (map (\<lambda>line. line @ [CHR 0x0A]) (kept_lines (rx ser (drained ser))))) = Some l"
    by (metis add.right_neutral zero_less_Suc)
  from confirm_loop_continue [OF t r0, of "Some l" out]
  obtain mid1 where step: "confirm_loop clock timeout i ser (Some l) out
           = confirm_loop clock timeout (Suc i) ?ser' (Some l) (out @ mid1)"
    by auto
  have a: "\<forall>j\<le>n. clock (Suc (Suc i + j)) - clock 0 < timeout"
    using Suc.prems(1) by (auto dest: spec [of _ "Suc _"])
  have b: "\<forall>j<n. get_position_from_response
           (concat (map (\<lambda>line. line @ [CHR 0x0A]) (kept_lines (rx ?ser' (drained ?ser' + j))))) = None
       \<or> get_position_from_response
           (concat (map (\<lambda>line. line @ [CHR 0x0A]) (kept_lines (rx ?ser' (drained ?ser' + j))))) = Some l"
    using Suc.prems(2) by (auto dest: spec [of _ "Suc _"])
  have c: "get_position_from_response
           (concat (map (\<lambda>line. line @ [CHR 0x0A]) (kept_lines (rx ?ser' (drained ?ser' + n))))) = Some p"
    using Suc.prems(3) by simp
  from Suc.IH [OF a b c Suc.prems(4), of "out @ mid1"]
  obtain mid2 where "confirm_loop clock timeout (Suc i) ?ser' (Some l) (out @ mid1)
           = Some (Some p,
                   ?ser'\<lparr>tx := tx ?ser' @ replicate (Suc n) [CHR ''Q'', CHR 0x0A],
                       drained := drained ?ser' + Suc n\<rparr>,
                   (out @ mid1) @ mid2 @ [PositionChanged l p])"
    by blast
  with step have "confirm_loop clock timeout i ser (Some l) out
           = Some (Some p,
                   ser\<lparr>tx := tx ser @ replicate (Suc (Suc n)) [CHR ''Q'', CHR 0x0A],
                       drained := drained ser + Suc (Suc n)\<rparr>,
                   out @ (mid1 @ mid2) @ [PositionChanged l p])"
    by simp
  then show ?case by blast
qed

lemma confirm_loop_times_out:
  assumes "\<forall>j<n. clock (Suc (i + j)) - clock 0 < timeout"
    and "\<not> clock (Suc (i + n)) - clock 0 < timeout"
    and "\<forall>j<n. get_position_from_response
           (concat (map (\<lambda>line. line @ [CHR 0x0A]) (kept_lines (rx ser (drained ser + j))))) = None
       \<or> get_position_from_response
           (concat (map (\<lambda>line. line @ [CHR 0x0A]) (kept_lines (rx ser (drained ser + j))))) = Some l"
    and "last_position = None \<or> last_position = Some l"
  shows "\<exists>ret mid. confirm_loop clock timeout i ser last_position out
           = Some (ret,
                   ser\<lparr>tx := tx ser @ replicate n [CHR ''Q'', CHR 0x0A],
                       drained := drained ser + n\<rparr>,
                   out @ mid @ [MoveNotConfirmed])
         \<and> (ret = None \<or> ret = Some l)
         \<and> (last_position = Some l \<longrightarrow> ret = Some l)"
  using assms
proof (induction n arbitrary: i ser out last_position)
  case 0
  then have "confirm_loop clock timeout i ser last_position out
           = Some (last_position, ser, out @ [] @ [MoveNotConfirmed])"
    by (subst confirm_loop.simps) simp
  with 0(4) show ?case by (intro exI [of _ last_position] exI [of _ "[]"]) simp
next
  case (Suc n)
  let ?ser' = "ser\<lparr>tx := tx ser @ [[CHR ''Q'', CHR 0x0A]], drained := Suc (drained ser)\<rparr>"
  from Suc.prems(1) have t: "clock (Suc i) - clock 0 < timeout"
    by (metis add.right_neutral zero_less_Suc)
  from Suc.prems(3) have r0: "get_position_from_response
           (concat (map (\<lambda>line. line @ [CHR 0x0A]) (kept_lines (rx ser (drained ser))))) = None
       \<or> get_position_from_response
           (concat (map (\<lambda>line. line @ [CHR 0x0A]) (kept_lines (rx ser (drained ser))))) = Some l"
    by (metis add.right_neutral zero_less_Suc)
  from confirm_loop_continue [OF t r0 Suc.prems(4), of out]
  obtain mid1 last' where step: "confirm_loop clock timeout i ser last_position out
           = confirm_loop clock timeout (Suc i) ?ser' last' (out @ mid1)"
    and l': "last' = None \<or> last' = Some l" "last_position = Some l \<longrightarrow> last' = Some l"
    by auto
  have a: "\<forall>j<n. clock (Suc (Suc i + j)) - clock 0 < timeout"
    using Suc.prems(1) by (auto dest: spec [of _ "Suc _"])
  have a': "\<not> clock (Suc (Suc i + n)) - clock 0 < timeout"
    using Suc.prems(2) by simp
  have b: "\<forall>j<n. get_position_from_response
           (concat (map (\<lambda>line. line @ [CHR 0x0A]) (kept_lines (rx ?ser' (drained ?ser' + j))))) = None
       \<or> get_position_from_response
           (concat (map (\<lambda>line. line @ [CHR 0x0A]) (kept_lines (rx ?ser' (drained ?ser' + j))))) = Some l"
    using Suc.prems(3) by (auto dest: spec [of _ "Suc _"])
  from Suc.IH [OF a a' b l'(1), of "out @ mid1"]
  obtain ret mid2 where "confirm_loop clock timeout (Suc i) ?ser' last' (out @ mid1)
           = Some (ret,
                   ?ser'\<lparr>tx := tx ?ser' @ replicate n [CHR ''Q'', CHR 0x0A],
                       drained := drained ?ser' + n\<rparr>,
                   (out @ mid1) @ mid2 @ [MoveNotConfirmed])"
    and ret: "ret = None \<or> ret = Some l" "last' = Some l \<longrightarrow> ret = Some l"
    by blast
  with step have "confirm_loop clock timeout i ser last_position out
           = Some (ret,
                   ser\<lparr>tx := tx ser @ replicate (Suc n) [CHR ''Q'', CHR 0x0A],
                       drained := drained ser + Suc n\<rparr>,
                   out @ (mid1 @ mid2) @ [MoveNotConfirmed])"
    by simp
  with ret l'(2) show ?case by blast
qed

text \<open>
  C7: starting from a known last position \<open>l\<close>, when cycle \<open>k\<close> is the first whose reply
  parses to a position other than \<open>l\<close> (earlier replies parse to \<open>l\<close> or to nothing) and the
  loop test still passes at that cycle, \<open>confirm_move\<close> returns that position \<open>p\<close> in cycle
  \<open>k\<close>: it has written exactly \<open>k + 1\<close> status queries and the last thing it prints is the
  change from \<open>l\<close> to \<open>p\<close>. A controller that reports 100, 100, 150 is confirmed with 150
  in the third cycle.
\<close>

theorem confirm_move_returns_at_first_change:
  assumes "\<forall>j\<le>k. clock (Suc j) - clock 0 < timeout"
    and "\<forall>j<k. get_position_from_response
           (concat (map (\<lambda>line. line @ [CHR 0x0A]) (kept_lines (rx ser (drained ser + j))))) = None
       \<or> get_position_from_response
           (concat (map (\<lambda>line. line @ [CHR 0x0A]) (kept_lines (rx ser (drained ser + j))))) = Some l"
    and "get_position_from_response
           (concat (map (\<lambda>line. line @ [CHR 0x0A]) (kept_lines (rx ser (drained ser + k))))) = Some p"
    and "p \<noteq> l"
  shows "\<exists>ser' out. confirm_move clock ser timeout (Some l) = Some (Some p, ser', out)
         \<and> tx ser' = tx ser @ replicate (Suc k) [CHR ''Q'', CHR 0x0A]
         \<and> drained ser' = drained ser + Suc k
         \<and> last out = PositionChanged l p"
proof -
  from assms(1) have t: "\<forall>j\<le>k. clock (Suc (0 + j)) - clock 0 < timeout" by simp
  from confirm_loop_changed [OF t assms(2,3,4), of "[]"]
  obtain mid where "confirm_move clock ser timeout (Some l)
           = Some (Some p,
                   ser\<lparr>tx := tx ser @ replicate (Suc k) [CHR ''Q'', CHR 0x0A],
                       drained := drained ser + Suc k\<rparr>,
                   [] @ mid @ [PositionChanged l p])"
    unfolding confirm_move_def by blast
  then show ?thesis by simp
qed

lemma moving_port_reply:
  "concat (map (\<lambda>line. line @ [CHR 0x0A]) (kept_lines (rx moving_port j)))
     = (if j < 2 then ''Position: 100'' @ [CHR 0x0A] else ''Position: 150'' @ [CHR 0x0A])"
  by (simp add: moving_port_def kept_lines_def py_strip_def is_space_def)

lemma position_100: "get_position_from_response (''Position: 100'' @ [CHR 0x0A]) = Some 100"
  by code_simp

lemma position_150: "get_position_from_response (''Position: 150'' @ [CHR 0x0A]) = Some 150"
  by code_simp

lemma moving_port_position:
  "get_position_from_response
     (concat (map (\<lambda>line. line @ [CHR 0x0A]) (kept_lines (rx moving_port j))))
       = (if j < 2 then Some 100 else Some 150)"
proof (cases "j < 2")
  case True
  with moving_port_reply [of j]
  have "concat (map (\<lambda>line. line @ [CHR 0x0A]) (kept_lines (rx moving_port j)))
          = ''Position: 100'' @ [CHR 0x0A]"
    by (simp only: if_True)
  with True show ?thesis by (simp only: position_100 if_True)
next
  case False
  with moving_port_reply [of j]
  have "concat (map (\<lambda>line. line @ [CHR 0x0A]) (kept_lines (rx moving_port j)))
          = ''Position: 150'' @ [CHR 0x0A]"
    by (simp only: if_False)
  with False show ?thesis by (simp only: position_150 if_False)
qed

theorem confirm_move_returns_at_first_change_witness:
  "get_position_from_response
     (concat (map (\<lambda>line. line @ [CHR 0x0A]) (kept_lines (rx moving_port 0)))) = Some 100
   \<and> get_position_from_response
     (concat (map (\<lambda>line. line @ [CHR 0x0A]) (kept_lines (rx moving_port 1)))) = Some 100
   \<and> get_position_from_response
     (concat (map (\<lambda>line. line @ [CHR 0x0A]) (kept_lines (rx moving_port 2)))) = Some 150
   \<and> (\<exists>ser' out. confirm_move half_second_clock moving_port 8 (Some 100)
                     = Some (Some 150, ser', out)
         \<and> tx ser' = replicate 3 [CHR ''Q'', CHR 0x0A]
         \<and> drained ser' = 3
         \<and> last out = PositionChanged 100 150)"
proof -
  have d: "drained moving_port = 0" "tx moving_port = []"
    by (simp_all add: moving_port_def)
  have t: "\<forall>j\<le>2. half_second_clock (Suc j) - half_second_clock 0 < 8"
    by (simp add: half_second_clock_def)
  have same: "\<forall>j<2. get_position_from_response
           (concat (map (\<lambda>line. line @ [CHR 0x0A])
              (kept_lines (rx moving_port (drained moving_port + j))))) = None
       \<or> get_position_from_response
           (concat (map (\<lambda>line. line @ [CHR 0x0A])
              (kept_lines (rx moving_port (drained moving_port + j))))) = Some 100"
    unfolding d moving_port_position by simp
  have changed: "get_position_from_response
           (concat (map (\<lambda>line. line @ [CHR 0x0A])
              (kept_lines (rx moving_port (drained moving_port + 2))))) = Some 150"
    unfolding d moving_port_position by simp
  from confirm_move_returns_at_first_change [OF t same changed]
  have "\<exists>ser' out. confirm_move half_second_clock moving_port 8 (Some 100)
                     = Some (Some 150, ser', out)
         \<and> tx ser' = replicate 3 [CHR ''Q'', CHR 0x0A]
         \<and> drained ser' = 3
         \<and> last out = PositionChanged 100 150"
    by (simp add: d numeral_3_eq_3)
  then show ?thesis unfolding moving_port_position by simp
qed

lemma clock_advances:
  assumes "\<forall>j. clock (Suc j) + 1 / 2 \<le> clock (Suc (Suc j))"
  shows "clock 1 + real j / 2 \<le> clock (Suc j)"
proof (induction j)
  case 0
  then show ?case by simp
next
  case (Suc j)
  from assms have "clock (Suc j) + 1 / 2 \<le> clock (Suc (Suc j))" by blast
  with Suc show ?case by (simp add: field_simps)
qed

text \<open>
  C8: on a clock that the half-second sleep of every cycle advances, and against a
  controller whose replies never parse to anything but the last known position \<open>l\<close>,
  \<open>confirm_move\<close> returns: it runs the \<open>n\<close> cycles whose loop test passes, \<open>n\<close> being at
  most twice the timeout, and at the first test where the elapsed time has reached the
  timeout it prints the warning and returns the last known position (when none was
  given, the one adopted from the replies, if any).
\<close>

theorem confirm_move_times_out:
  assumes "\<forall>j. clock (Suc j) + 1 / 2 \<le> clock (Suc (Suc j))"
    and "clock 0 \<le> clock 1"
    and "\<forall>j. get_position_from_response
           (concat (map (\<lambda>line. line @ [CHR 0x0A]) (kept_lines (rx ser (drained ser + j))))) = None
       \<or> get_position_from_response
           (concat (map (\<lambda>line. line @ [CHR 0x0A]) (kept_lines (rx ser (drained ser + j))))) = Some l"
    and "prev_position = None \<or> prev_position = Some l"
  shows "\<exists>n ret ser' out.
           confirm_move clock ser timeout prev_position = Some (ret, ser', out)
         \<and> n \<le> nat \<lceil>2 * timeout\<rceil>
         \<and> (\<forall>k<n. clock (Suc k) - clock 0 < timeout)
         \<and> timeout \<le> clock (Suc n) - clock 0
         \<and> tx ser' = tx ser @ replicate n [CHR ''Q'', CHR 0x0A]
         \<and> drained ser' = drained ser + n
         \<and> (ret = None \<or> ret = Some l)
         \<and> (prev_position = Some l \<longrightarrow> ret = Some l)
         \<and> last out = MoveNotConfirmed"
proof -
  let ?N = "nat \<lceil>2 * timeout\<rceil>"
  define n where "n = (LEAST n. \<not> clock (Suc n) - clock 0 < timeout)"
  have "2 * timeout \<le> real ?N"
    by (rule of_nat_ceiling)
  then have "timeout \<le> real ?N / 2" by simp
  also from clock_advances [OF assms(1), of ?N] assms(2)
  have "real ?N / 2 \<le> clock (Suc ?N) - clock 0" by simp
  finally have N: "\<not> clock (Suc ?N) - clock 0 < timeout" by simp
  then have stop: "\<not> clock (Suc n) - clock 0 < timeout"
    unfolding n_def by (rule LeastI)
  from N have bound: "n \<le> ?N"
    unfolding n_def by (rule Least_le)
  have before: "\<forall>k<n. clock (Suc k) - clock 0 < timeout"
    unfolding n_def using not_less_Least by blast
  then have a: "\<forall>j<n. clock (Suc (0 + j)) - clock 0 < timeout" by simp
  from stop have a': "\<not> clock (Suc (0 + n)) - clock 0 < timeout" by simp
  from assms(3) have b: "\<forall>j<n. get_position_from_response
           (concat (map (\<lambda>line. line @ [CHR 0x0A]) (kept_lines (rx ser (drained ser + j))))) = None
       \<or> get_position_from_response
           (concat (map (\<lambda>line. line @ [CHR 0x0A]) (kept_lines (rx ser (drained ser + j))))) = Some l"
    by blast
  from confirm_loop_times_out [OF a a' b assms(4), of "[]"]
  obtain ret mid where run: "confirm_move clock ser timeout prev_position
           = Some (ret,
                   ser\<lparr>tx := tx ser @ replicate n [CHR ''Q'', CHR 0x0A],
                       drained := drained ser + n\<rparr>,
                   [] @ mid @ [MoveNotConfirmed])"
    and ret: "ret = None \<or> ret = Some l" "prev_position = Some l \<longrightarrow> ret = Some l"
    unfolding confirm_move_def by blast
  from stop have "timeout \<le> clock (Suc n) - clock 0" by simp
  with run ret bound before show ?thesis
    by (intro exI [of _ n] exI [of _ ret]
        exI [of _ "ser\<lparr>tx := tx ser @ replicate n [CHR ''Q'', CHR 0x0A], drained := drained ser + n\<rparr>"]
        exI [of _ "mid @ [MoveNotConfirmed]"]) simp
qed

lemma stuck_port_position:
  "get_position_from_response
     (concat (map (\<lambda>line. line @ [CHR 0x0A]) (kept_lines (rx stuck_port j)))) = Some 100"
proof -
  have "concat (map (\<lambda>line. line @ [CHR 0x0A]) (kept_lines (rx stuck_port j)))
          = ''Position: 100'' @ [CHR 0x0A]"
    by (simp add: stuck_port_def kept_lines_def py_strip_def is_space_def)
  then show ?thesis by (simp only: position_100)
qed

theorem confirm_move_times_out_witness:
  "(\<forall>j. half_second_clock (Suc j) + 1 / 2 \<le> half_second_clock (Suc (Suc j)))
   \<and> half_second_clock 0 \<le> half_second_clock 1
   \<and> (\<forall>j. get_position_from_response
           (concat (map (\<lambda>line. line @ [CHR 0x0A]) (kept_lines (rx stuck_port j)))) = Some 100)
   \<and> (\<exists>ser' out. confirm_move half_second_clock stuck_port 8 (Some 100)
                     = Some (Some 100, ser', out)
         \<and> tx ser' = replicate 15 [CHR ''Q'', CHR 0x0A]
         \<and> last out = MoveNotConfirmed)"
proof -
  have d: "drained stuck_port = 0" "tx stuck_port = []"
    by (simp_all add: stuck_port_def)
  have sleep: "\<forall>j. half_second_clock (Suc j) + 1 / 2 \<le> half_second_clock (Suc (Suc j))"
    by (simp add: half_second_clock_def field_simps)
  have start: "half_second_clock 0 \<le> half_second_clock 1"
    by (simp add: half_second_clock_def)
  have same: "\<forall>j. get_position_from_response
           (concat (map (\<lambda>line. line @ [CHR 0x0A])
              (kept_lines (rx stuck_port (drained stuck_port + j))))) = None
       \<or> get_position_from_response
           (concat (map (\<lambda>line. line @ [CHR 0x0A])
              (kept_lines (rx stuck_port (drained stuck_port + j))))) = Some 100"
    unfolding stuck_port_position by simp
  from confirm_move_times_out [OF sleep start same, of "Some 100" 8]
  obtain n ser' out where run: "confirm_move half_second_clock stuck_port 8 (Some 100)
                     = Some (Some 100, ser', out)"
    and before: "\<forall>k<n. half_second_clock (Suc k) - half_second_clock 0 < 8"
    and stop: "8 \<le> half_second_clock (Suc n) - half_second_clock 0"
    and tx: "tx ser' = tx stuck_port @ replicate n [CHR ''Q'', CHR 0x0A]"
    and out: "last out = MoveNotConfirmed"
    by auto
  from stop have "15 \<le> n" by (simp add: half_second_clock_def)
  moreover have "n \<le> 15"
  proof (rule ccontr)
    assume "\<not> n \<le> 15"
    then have "15 < n" by simp
    with before have "half_second_clock (Suc 15) - half_second_clock 0 < 8" by blast
    then show False by (simp add: half_second_clock_def)
  qed
  ultimately have "n = 15" by simp
  with run tx out d have "\<exists>ser' out. confirm_move half_second_clock stuck_port 8 (Some 100)
                     = Some (Some 100, ser', out)
         \<and> tx ser' = replicate 15 [CHR ''Q'', CHR 0x0A]
         \<and> last out = MoveNotConfirmed"
    by simp
  with sleep start show ?thesis unfolding stuck_port_position by simp
qed

end
